theory Spec2Isabelle
  imports Main "HOL-Library.Multiset"
begin

section \<open>Data model of heap.c\<close>

text \<open>
  An element is a \<^verbatim>\<open>void *\<close>: either the null pointer or a reference to a caller-owned
  payload. The null pointer is also what \<^verbatim>\<open>heap_peek\<close>, \<^verbatim>\<open>heap_extract\<close> and
  \<^verbatim>\<open>heap_replace\<close> return as their "nothing there" answer.
\<close>

type_synonym 'a ptr = "'a option"

abbreviation NULL :: "'a ptr" where
  "NULL \<equiv> None"

text \<open>\<^verbatim>\<open>typedef int (*heap_cmp_fn)(const void *a, const void *b)\<close>; only the sign of the
  result is ever inspected. A function pointer argument may itself be null, which is
  \<open>None\<close> at the type \<open>'a heap_cmp_fn option\<close>.\<close>

type_synonym 'a heap_cmp_fn = "'a ptr \<Rightarrow> 'a ptr \<Rightarrow> int"

text \<open>
  \<^verbatim>\<open>struct Heap\<close>. The list \<open>data\<close> is the allocated buffer itself: its length is the number
  of slots the allocator really handed out, whatever the \<open>capacity\<close> field says. The field
  \<^verbatim>\<open>size\<close> is called \<open>size_h\<close> here.

  \<^verbatim>\<open>size_t\<close> values are natural numbers, and \<^verbatim>\<open>size_t\<close> is taken to be 64 bits wide with
  8-byte pointers. Where the code multiplies a number the caller chose freely, the
  product is reduced modulo \<open>2 ^ 64\<close> as in C: the byte counts handed to \<^verbatim>\<open>malloc\<close> and
  \<^verbatim>\<open>realloc\<close> by \<^verbatim>\<open>heap_create\<close> and \<^verbatim>\<open>heap_reserve\<close>, and the doubled capacity in
  \<^verbatim>\<open>heap_insert\<close>. So is the one subtraction that can wrap, \<open>i - 1\<close> at \<open>i = 0\<close> in \<open>parent\<close>.
  The array handed to \<^verbatim>\<open>heap_build\<close> and \<^verbatim>\<open>heap_sort\<close> is an object of \<open>n\<close> pointers, so
  \<open>n * sizeof(void *)\<close> is its size in bytes and does not wrap; and an index below the size
  of a heap whose elements all lie in its buffer is below \<open>2 ^ 61\<close>, so \<open>2 * i + 2\<close> does not
  wrap either. These are written over the naturals.
\<close>

record 'a Heap =
  data :: "'a ptr list"
  size_h :: nat
  capacity :: nat
  cmp :: "'a heap_cmp_fn"

text \<open>
  What the C library answers to one allocation request: no memory, or a block whose
  fresh slots hold indeterminate values (slot \<open>k\<close> of the block holds \<open>junk k\<close>).
  \<^verbatim>\<open>realloc\<close> keeps the old slots that still fit.
\<close>

datatype 'a allocation = NoMemory | Block "nat \<Rightarrow> 'a ptr"

definition SIZE_MAX :: nat where
  "SIZE_MAX = 2 ^ 64 - 1"

definition SIZEOF_PTR :: nat where
  "SIZEOF_PTR = 8"

text \<open>Multiplication in \<^verbatim>\<open>size_t\<close>.\<close>

definition size_mul :: "nat \<Rightarrow> nat \<Rightarrow> nat" where
  "size_mul a b = (a * b) mod (SIZE_MAX + 1)"

text \<open>The whole slots in a block of \<^verbatim>\<open>n * sizeof(void *)\<close> bytes, the product taken in
  \<^verbatim>\<open>size_t\<close>.\<close>

definition slots_of :: "nat \<Rightarrow> nat" where
  "slots_of n = size_mul n SIZEOF_PTR div SIZEOF_PTR"

text \<open>The two allocation functions, with the request counted in slots.\<close>

fun malloc :: "'a allocation \<Rightarrow> nat \<Rightarrow> 'a ptr list option" where
  "malloc NoMemory n = None"
| "malloc (Block junk) n = Some (map junk [0..<n])"

fun realloc :: "'a allocation \<Rightarrow> 'a ptr list \<Rightarrow> nat \<Rightarrow> 'a ptr list option" where
  "realloc NoMemory old n = None"
| "realloc (Block junk) old n = Some (take n old @ map junk [length old..<n])"

text \<open>A store through \<^verbatim>\<open>h->data[i]\<close> with \<open>i\<close> outside the allocated buffer is undefined
  behaviour in C; the model makes it an outcome of its own. The only access that a run
  of the operations below can take outside the buffer is the store in \<^verbatim>\<open>heap_insert\<close>: all
  others stay below the logical size, which stays within the buffer.\<close>

datatype fault = OutOfBounds

definition HEAP_DEFAULT_CAP :: nat where
  "HEAP_DEFAULT_CAP = 16"

section \<open>Index helpers and the two sift loops\<close>

text \<open>\<^verbatim>\<open>(i - 1) / 2\<close> on \<^verbatim>\<open>size_t\<close>: at \<open>i = 0\<close> the subtraction wraps to \<open>SIZE_MAX\<close>.\<close>

definition parent :: "nat \<Rightarrow> nat" where
  "parent i = (if i = 0 then SIZE_MAX div 2 else (i - 1) div 2)"

definition left :: "nat \<Rightarrow> nat" where
  "left i = 2 * i + 1"

definition right :: "nat \<Rightarrow> nat" where
  "right i = 2 * i + 2"

text \<open>\<^verbatim>\<open>swap(&h->data[a], &h->data[b])\<close>, on the two slot indices.\<close>

definition swap :: "'a list \<Rightarrow> nat \<Rightarrow> nat \<Rightarrow> 'a list" where
  "swap xs a b = (let tmp = xs ! a in (xs[a := xs ! b])[b := tmp])"

function sift_up :: "'a Heap \<Rightarrow> nat \<Rightarrow> 'a Heap" where
  "sift_up h i =
     (if i > 0 then
        (let p = parent i in
         if cmp h (data h ! i) (data h ! p) \<le> 0 then h
         else sift_up (h\<lparr>data := swap (data h) i p\<rparr>) p)
      else h)"
  by pat_completeness auto
termination
  by (relation "measure (\<lambda>(h, i). i)") (auto simp: parent_def)

declare sift_up.simps [simp del]

text \<open>The first half of the body of \<^verbatim>\<open>sift_down\<close>'s loop: which of the node and its children
  present below the logical size ranks highest, a child only when it strictly outranks.\<close>

definition pick_largest :: "'a Heap \<Rightarrow> nat \<Rightarrow> nat" where
  "pick_largest h i =
     (let l = left i; r = right i; largest = i;
          largest = (if l < size_h h \<and> cmp h (data h ! l) (data h ! largest) > 0
                     then l else largest);
          largest = (if r < size_h h \<and> cmp h (data h ! r) (data h ! largest) > 0
                     then r else largest)
      in largest)"

function sift_down :: "'a Heap \<Rightarrow> nat \<Rightarrow> 'a Heap" where
  "sift_down h i =
     (let largest = pick_largest h i in
      if largest = i then h
      else sift_down (h\<lparr>data := swap (data h) i largest\<rparr>) largest)"
  by pat_completeness auto
termination
  by (relation "measure (\<lambda>(h, i). size_h h - i)")
     (auto simp: pick_largest_def left_def right_def Let_def split: if_splits)

declare sift_down.simps [simp del]

section \<open>Public API\<close>

text \<open>
  Every function takes the state it reads and returns the state it leaves. A heap handle
  that the C code tests against null is a \<open>'a Heap option\<close>; \<^verbatim>\<open>heap_reserve\<close> and
  \<^verbatim>\<open>heap_insert\<close> dereference their handle unchecked and take a \<open>'a Heap\<close>. A function that
  allocates takes the allocator's answers as arguments: whether \<^verbatim>\<open>calloc\<close> of the struct
  succeeds, and what \<^verbatim>\<open>malloc\<close> or \<^verbatim>\<open>realloc\<close> of the buffer returns. \<^verbatim>\<open>heap_trim\<close>,
  \<^verbatim>\<open>heap_clone\<close>, the iterator and the debug printer are not needed below and are left out.
\<close>

definition heap_create ::
  "'a heap_cmp_fn option \<Rightarrow> nat \<Rightarrow> bool \<Rightarrow> 'a allocation \<Rightarrow> 'a Heap option" where
  "heap_create cmp0 capacity0 calloc_ok a =
     (case cmp0 of
        None \<Rightarrow> None
      | Some c \<Rightarrow>
          (let cap = (if capacity0 = 0 then HEAP_DEFAULT_CAP else capacity0) in
           if \<not> calloc_ok then None
           else (case malloc a (slots_of cap) of
                   None \<Rightarrow> None
                 | Some buf \<Rightarrow> Some \<lparr>data = buf, size_h = 0, capacity = cap, cmp = c\<rparr>)))"

text \<open>The bottom-up loop of \<^verbatim>\<open>heap_build\<close>, over a signed index as in the source:
  \<^verbatim>\<open>for (ssize_t i = (ssize_t)(n / 2) - 1; i >= 0; i--) sift_down(h, (size_t)i);\<close>\<close>

function heapify_loop :: "'a Heap \<Rightarrow> int \<Rightarrow> 'a Heap" where
  "heapify_loop h i = (if i \<ge> 0 then heapify_loop (sift_down h (nat i)) (i - 1) else h)"
  by pat_completeness auto
termination
  by (relation "measure (\<lambda>(h, i). nat (i + 1))") auto

declare heapify_loop.simps [simp del]

text \<open>The caller's array \<^verbatim>\<open>arr\<close> with its element count \<^verbatim>\<open>n\<close> is one list, \<open>n\<close> its
  length; \<^verbatim>\<open>memcpy\<close> of \<open>n\<close> slots replaces the fresh buffer's whole contents.\<close>

definition heap_build ::
  "'a ptr list \<Rightarrow> 'a heap_cmp_fn option \<Rightarrow> bool \<Rightarrow> 'a allocation \<Rightarrow> 'a Heap option" where
  "heap_build arr cmp0 calloc_ok a =
     (let n = length arr in
      case cmp0 of
        None \<Rightarrow> None
      | Some c \<Rightarrow>
          if \<not> calloc_ok then None
          else (case malloc a n of
                  None \<Rightarrow> None
                | Some buf \<Rightarrow>
                    (let h = \<lparr>data = take n arr @ drop n buf, size_h = n, capacity = n, cmp = c\<rparr>
                     in Some (heapify_loop h (int (n div 2) - 1)))))"

text \<open>\<^verbatim>\<open>heap_destroy\<close> only releases memory; its effect is the list of blocks handed to
  \<^verbatim>\<open>free\<close>, in order.\<close>

datatype 'a freed = Buffer "'a ptr list" | Header

definition heap_destroy :: "'a Heap option \<Rightarrow> 'a freed list" where
  "heap_destroy h = (case h of None \<Rightarrow> [] | Some h' \<Rightarrow> [Buffer (data h'), Header])"

definition heap_reserve :: "'a Heap \<Rightarrow> nat \<Rightarrow> 'a allocation \<Rightarrow> int \<times> 'a Heap" where
  "heap_reserve h n a =
     (if capacity h \<ge> n then (0, h)
      else (case realloc a (data h) (slots_of n) of
              None \<Rightarrow> (- 1, h)
            | Some tmp \<Rightarrow> (0, h\<lparr>data := tmp, capacity := n\<rparr>)))"

text \<open>\<^verbatim>\<open>heap_insert\<close> returns the status code together with the heap as it is left. The
  store \<^verbatim>\<open>h->data[h->size] = item\<close> is checked against the buffer really allocated.\<close>

definition heap_insert ::
  "'a Heap \<Rightarrow> 'a ptr \<Rightarrow> 'a allocation \<Rightarrow> fault + (int \<times> 'a Heap)" where
  "heap_insert h item a =
     (case (if size_h h = capacity h then heap_reserve h (size_mul (capacity h) 2) a
            else (0, h)) of
        (rc, h1) \<Rightarrow>
          if rc < 0 then Inr (- 1, h1)
          else if length (data h1) \<le> size_h h1 then Inl OutOfBounds
          else (let h2 = h1\<lparr>data := (data h1)[size_h h1 := item]\<rparr>;
                    h3 = sift_up h2 (size_h h2)
                in Inr (0, h3\<lparr>size_h := size_h h3 + 1\<rparr>)))"

definition heap_peek :: "'a Heap option \<Rightarrow> 'a ptr" where
  "heap_peek h =
     (case h of
        None \<Rightarrow> NULL
      | Some h' \<Rightarrow> if size_h h' > 0 then data h' ! 0 else NULL)"

definition heap_extract :: "'a Heap option \<Rightarrow> 'a ptr \<times> 'a Heap option" where
  "heap_extract h =
     (case h of
        None \<Rightarrow> (NULL, None)
      | Some h0 \<Rightarrow>
          if size_h h0 = 0 then (NULL, Some h0)
          else (let root = data h0 ! 0;
                    h1 = h0\<lparr>data := (data h0)[0 := data h0 ! (size_h h0 - 1)]\<rparr>;
                    h2 = h1\<lparr>size_h := size_h h1 - 1\<rparr>;
                    h3 = (if size_h h2 > 0 then sift_down h2 0 else h2)
                in (root, Some h3)))"

definition heap_replace :: "'a Heap option \<Rightarrow> 'a ptr \<Rightarrow> 'a ptr \<times> 'a Heap option" where
  "heap_replace h item =
     (case h of
        None \<Rightarrow> (NULL, None)
      | Some h0 \<Rightarrow>
          if size_h h0 = 0 then (NULL, Some h0)
          else (let root = data h0 ! 0;
                    h1 = h0\<lparr>data := (data h0)[0 := item]\<rparr>
                in (root, Some (sift_down h1 0))))"

definition heap_size :: "'a Heap option \<Rightarrow> nat" where
  "heap_size h = (case h of None \<Rightarrow> 0 | Some h' \<Rightarrow> size_h h')"

definition heap_clear :: "'a Heap option \<Rightarrow> 'a Heap option" where
  "heap_clear h = (case h of None \<Rightarrow> None | Some h' \<Rightarrow> Some (h'\<lparr>size_h := 0\<rparr>))"

text \<open>The loop of \<^verbatim>\<open>heap_validate\<close>, with its early \<^verbatim>\<open>return false\<close>.\<close>

function validate_loop :: "'a Heap \<Rightarrow> nat \<Rightarrow> bool" where
  "validate_loop h i =
     (if i < size_h h then
        (let p = parent i in
         if cmp h (data h ! i) (data h ! p) > 0 then False
         else validate_loop h (i + 1))
      else True)"
  by pat_completeness auto
termination
  by (relation "measure (\<lambda>(h, i). size_h h - i)") auto

declare validate_loop.simps [simp del]

definition heap_validate :: "'a Heap option \<Rightarrow> bool" where
  "heap_validate h = (case h of None \<Rightarrow> False | Some h' \<Rightarrow> validate_loop h' 1)"

text \<open>\<^verbatim>\<open>for (size_t i = n; i-- > 0;) arr[i] = heap_extract(h);\<close>\<close>

fun sort_loop :: "'a ptr list \<Rightarrow> 'a Heap option \<Rightarrow> nat \<Rightarrow> 'a ptr list" where
  "sort_loop arr h 0 = arr"
| "sort_loop arr h (Suc i) =
     (case heap_extract h of (x, h') \<Rightarrow> sort_loop (arr[i := x]) h' i)"

text \<open>\<^verbatim>\<open>heap_sort\<close> returns nothing; what the caller sees afterwards is the array.\<close>

definition heap_sort ::
  "'a ptr list \<Rightarrow> 'a heap_cmp_fn option \<Rightarrow> bool \<Rightarrow> 'a allocation \<Rightarrow> 'a ptr list" where
  "heap_sort arr cmp0 calloc_ok a =
     (case heap_build arr cmp0 calloc_ok a of
        None \<Rightarrow> arr
      | Some h \<Rightarrow> sort_loop arr (Some h) (length arr))"

section \<open>The demo program\<close>

text \<open>The comparator of the demo, \<^verbatim>\<open>(x > y) - (x < y)\<close> on the two pointed-to integers.
  It dereferences both arguments, so it says nothing about a null pointer.\<close>

fun int_cmp :: "int heap_cmp_fn" where
  "int_cmp (Some x) (Some y) = (if x > y then 1 else 0) - (if x < y then 1 else 0)"

text \<open>The demo's draining loop, \<^verbatim>\<open>while (heap_size(h)) ... heap_extract(h)\<close>, collecting
  what is popped. That it terminates is shown below, once \<open>sift_down\<close> is known to keep
  the size.\<close>

function pop_all :: "'a Heap option \<Rightarrow> 'a ptr list" where
  "pop_all h =
     (if heap_size h \<noteq> 0 then
        (case heap_extract h of (x, h') \<Rightarrow> x # pop_all h')
      else [])"
  by pat_completeness auto

section \<open>Vocabulary of the specification\<close>

text \<open>
  The comparator contract, on the set \<open>S\<close> of pointers the caller ever hands to the heap:
  "does not outrank" (\<open>c x y \<le> 0\<close>) is total and transitive there. This is what a strict
  weak ordering of "outranks" (\<open>c x y > 0\<close>) amounts to.
\<close>

definition cmp_valid_on :: "'a ptr set \<Rightarrow> 'a heap_cmp_fn \<Rightarrow> bool" where
  "cmp_valid_on S c \<longleftrightarrow>
     (\<forall>x\<in>S. \<forall>y\<in>S. c x y \<le> 0 \<or> c y x \<le> 0) \<and>
     (\<forall>x\<in>S. \<forall>y\<in>S. \<forall>z\<in>S. c x y \<le> 0 \<longrightarrow> c y z \<le> 0 \<longrightarrow> c x z \<le> 0)"

text \<open>The heap property: no child outranks its parent.\<close>

definition heap_property :: "'a Heap \<Rightarrow> bool" where
  "heap_property h \<longleftrightarrow>
     (\<forall>i\<in>{1..<size_h h}. cmp h (data h ! i) (data h ! parent i) \<le> 0)"

text \<open>The live elements lie in the allocated buffer, and the buffer has no more slots than
  the \<open>capacity\<close> field says; so the logical size is at most the capacity. Every heap that a
  run of the operations reaches is so (lemma \<open>reachable_in_bounds\<close> below).\<close>

definition in_bounds :: "'a Heap \<Rightarrow> bool" where
  "in_bounds h \<longleftrightarrow> size_h h \<le> length (data h) \<and> length (data h) \<le> capacity h"

text \<open>The live elements, in array order.\<close>

definition live :: "'a Heap \<Rightarrow> 'a ptr list" where
  "live h = take (size_h h) (data h)"

text \<open>
  The heaps a caller can hold after any run of the mutating operations, with comparator
  \<open>c\<close> and every element handed over taken from \<open>S\<close>: start from \<^verbatim>\<open>heap_create\<close> or
  \<^verbatim>\<open>heap_build\<close>, continue with \<^verbatim>\<open>heap_insert\<close>, \<^verbatim>\<open>heap_extract\<close> and \<^verbatim>\<open>heap_replace\<close>,
  whatever the allocator answers each time. A call of \<^verbatim>\<open>heap_insert\<close> that runs into
  undefined behaviour returns no heap and so continues no run.
\<close>

inductive reachable :: "'a ptr set \<Rightarrow> 'a heap_cmp_fn \<Rightarrow> 'a Heap \<Rightarrow> bool"
  for S :: "'a ptr set" and c :: "'a heap_cmp_fn" where
  created: "heap_create (Some c) capacity0 calloc_ok a = Some h \<Longrightarrow> reachable S c h"
| built: "set arr \<subseteq> S \<Longrightarrow> heap_build arr (Some c) calloc_ok a = Some h \<Longrightarrow> reachable S c h"
| inserted: "reachable S c h \<Longrightarrow> x \<in> S \<Longrightarrow> heap_insert h x a = Inr (rc, h') \<Longrightarrow> reachable S c h'"
| extracted: "reachable S c h \<Longrightarrow> heap_extract (Some h) = (r, Some h') \<Longrightarrow> reachable S c h'"
| replaced_root:
    "reachable S c h \<Longrightarrow> x \<in> S \<Longrightarrow> heap_replace (Some h) x = (r, Some h') \<Longrightarrow> reachable S c h'"

text \<open>
  \<^verbatim>\<open>heap_build\<close> as the specification words it: the \<open>n\<close> references in a buffer of exactly \<open>n\<close>
  slots, logical size \<open>n\<close>, then one sift-down for each index from \<open>n div 2 - 1\<close> down to \<open>0\<close>.
\<close>

definition build_by_spec :: "'a ptr list \<Rightarrow> 'a heap_cmp_fn \<Rightarrow> 'a Heap" where
  "build_by_spec arr c =
     fold (\<lambda>i h. sift_down h i) (rev [0..<length arr div 2])
       \<lparr>data = arr, size_h = length arr, capacity = length arr, cmp = c\<rparr>"

text \<open>The example comparator of the specification, "returning \<open>a - b\<close> on integers".\<close>

fun diff_cmp :: "int heap_cmp_fn" where
  "diff_cmp (Some a) (Some b) = a - b"

section \<open>Invariants of the sift loops\<close>

text \<open>All edges whose parent index is at least \<open>j\<close> are in order, among the first \<open>n\<close> slots.\<close>

definition heap_from :: "'a heap_cmp_fn \<Rightarrow> 'a ptr list \<Rightarrow> nat \<Rightarrow> nat \<Rightarrow> bool" where
  "heap_from c d n j \<longleftrightarrow> (\<forall>i\<in>{1..<n}. j \<le> parent i \<longrightarrow> c (d ! i) (d ! parent i) \<le> 0)"

text \<open>While \<open>sift_down\<close> stands at \<open>k\<close>: the edges below \<open>k\<close> may be out of order, every other
  edge is fine, and the children of \<open>k\<close> do not outrank the parent of \<open>k\<close>.\<close>

definition down_inv :: "'a heap_cmp_fn \<Rightarrow> 'a ptr list \<Rightarrow> nat \<Rightarrow> nat \<Rightarrow> nat \<Rightarrow> bool" where
  "down_inv c d n j k \<longleftrightarrow>
     (\<forall>i\<in>{1..<n}. j \<le> parent i \<longrightarrow> parent i \<noteq> k \<longrightarrow> c (d ! i) (d ! parent i) \<le> 0) \<and>
     (0 < k \<and> j \<le> parent k \<longrightarrow> (\<forall>i\<in>{1..<n}. parent i = k \<longrightarrow> c (d ! i) (d ! parent k) \<le> 0))"

text \<open>While \<open>sift_up\<close> stands at \<open>k\<close>: only the edge above \<open>k\<close> may be out of order, and the
  children of \<open>k\<close> do not outrank the parent of \<open>k\<close>.\<close>

definition up_inv :: "'a heap_cmp_fn \<Rightarrow> 'a ptr list \<Rightarrow> nat \<Rightarrow> nat \<Rightarrow> bool" where
  "up_inv c d n k \<longleftrightarrow>
     (\<forall>i\<in>{1..<n}. i \<noteq> k \<longrightarrow> c (d ! i) (d ! parent i) \<le> 0) \<and>
     (0 < k \<longrightarrow> (\<forall>i\<in>{1..<n}. parent i = k \<longrightarrow> c (d ! i) (d ! parent k) \<le> 0))"

text \<open>Names for the heaps the operations leave on their main paths; each is tied to its
  operation by a lemma below.\<close>

definition build_start :: "'a ptr list \<Rightarrow> 'a heap_cmp_fn \<Rightarrow> 'a Heap" where
  "build_start arr c = \<lparr>data = arr, size_h = length arr, capacity = length arr, cmp = c\<rparr>"

definition place :: "'a Heap \<Rightarrow> 'a ptr \<Rightarrow> 'a Heap" where
  "place h1 x =
    (sift_up (h1\<lparr>data := (data h1)[size_h h1 := x]\<rparr>) (size_h h1))\<lparr>size_h := size_h h1 + 1\<rparr>"

definition grown :: "'a Heap \<Rightarrow> (nat \<Rightarrow> 'a ptr) \<Rightarrow> 'a Heap" where
  "grown h junk =
     h\<lparr>data := take (capacity h * 2) (data h) @ map junk [length (data h)..<capacity h * 2],
       capacity := capacity h * 2\<rparr>"

definition popped :: "'a Heap \<Rightarrow> 'a Heap" where
  "popped h =
     (let h2 = h\<lparr>data := (data h)[0 := data h ! (size_h h - 1)], size_h := size_h h - 1\<rparr>
      in if size_h h2 > 0 then sift_down h2 0 else h2)"

definition replaced :: "'a Heap \<Rightarrow> 'a ptr \<Rightarrow> 'a Heap" where
  "replaced h x = sift_down (h\<lparr>data := (data h)[0 := x]\<rparr>) 0"

section \<open>Slots, indices and frames\<close>

lemma length_swap [simp]: "length (swap xs a b) = length xs"
  by (simp add: swap_def)

lemma nth_swap:
  "a < length xs \<Longrightarrow> b < length xs \<Longrightarrow>
   swap xs a b ! k = (if k = b then xs ! a else if k = a then xs ! b else xs ! k)"
  by (simp add: swap_def nth_list_update)

lemma mset_swap_slots:
  "a < length xs \<Longrightarrow> b < length xs \<Longrightarrow> mset (swap xs a b) = mset xs"
  by (simp add: swap_def Let_def mset_swap)

lemma take_swap:
  "a < n \<Longrightarrow> b < n \<Longrightarrow> take n (swap xs a b) = swap (take n xs) a b"
  by (simp add: swap_def take_update_swap)

lemma parent_less: "0 < i \<Longrightarrow> parent i < i"
  by (simp add: parent_def)

lemma parent_left [simp]: "parent (left k) = k"
  by (simp add: parent_def left_def)

lemma parent_right [simp]: "parent (right k) = k"
  by (simp add: parent_def right_def)

lemma parent_eq_iff: "0 < i \<Longrightarrow> parent i = k \<longleftrightarrow> i = left k \<or> i = right k"
  by (auto simp: parent_def left_def right_def)

lemma pick_largest_cases:
  "pick_largest h i = i \<or>
   (pick_largest h i = left i \<and> left i < size_h h) \<or>
   (pick_largest h i = right i \<and> right i < size_h h)"
  by (simp add: pick_largest_def Let_def)

lemma sift_down_size [simp]: "size_h (sift_down h i) = size_h h"
  by (induction h i rule: sift_down.induct) (subst sift_down.simps, simp add: Let_def)

lemma sift_down_capacity [simp]: "capacity (sift_down h i) = capacity h"
  by (induction h i rule: sift_down.induct) (subst sift_down.simps, simp add: Let_def)

lemma sift_down_cmp [simp]: "cmp (sift_down h i) = cmp h"
  by (induction h i rule: sift_down.induct) (subst sift_down.simps, simp add: Let_def)

lemma sift_down_length [simp]: "length (data (sift_down h i)) = length (data h)"
  by (induction h i rule: sift_down.induct) (subst sift_down.simps, simp add: Let_def)

lemma sift_up_size [simp]: "size_h (sift_up h i) = size_h h"
  by (induction h i rule: sift_up.induct) (subst sift_up.simps, simp add: Let_def)

lemma sift_up_capacity [simp]: "capacity (sift_up h i) = capacity h"
  by (induction h i rule: sift_up.induct) (subst sift_up.simps, simp add: Let_def)

lemma sift_up_cmp [simp]: "cmp (sift_up h i) = cmp h"
  by (induction h i rule: sift_up.induct) (subst sift_up.simps, simp add: Let_def)

lemma sift_up_length [simp]: "length (data (sift_up h i)) = length (data h)"
  by (induction h i rule: sift_up.induct) (subst sift_up.simps, simp add: Let_def)

section \<open>The comparator contract\<close>

lemma cmp_total:
  assumes "cmp_valid_on S c" "x \<in> S" "y \<in> S" "0 < c x y"
  shows "c y x \<le> 0"
proof -
  from assms(1-3) have "c x y \<le> 0 \<or> c y x \<le> 0"
    unfolding cmp_valid_on_def by blast
  with assms(4) show ?thesis by linarith
qed

lemma cmp_trans:
  assumes "cmp_valid_on S c" "x \<in> S" "y \<in> S" "z \<in> S" "c x y \<le> 0" "c y z \<le> 0"
  shows "c x z \<le> 0"
proof -
  from assms(1) have "\<forall>x\<in>S. \<forall>y\<in>S. \<forall>z\<in>S. c x y \<le> 0 \<longrightarrow> c y z \<le> 0 \<longrightarrow> c x z \<le> 0"
    unfolding cmp_valid_on_def by (rule conjunct2)
  with assms(2-6) show ?thesis by blast
qed

lemma cmp_refl:
  assumes "cmp_valid_on S c" "x \<in> S"
  shows "c x x \<le> 0"
proof -
  from assms have "c x x \<le> 0 \<or> c x x \<le> 0"
    unfolding cmp_valid_on_def by blast
  then show ?thesis by simp
qed

lemma live_mem:
  assumes "i < n" "n \<le> length d" "set (take n d) \<subseteq> S"
  shows "d ! i \<in> S"
proof -
  from assms(1,2) have "i < length (take n d)" by simp
  then have "take n d ! i \<in> set (take n d)" by (rule nth_mem)
  with assms(1,3) show ?thesis by auto
qed

section \<open>Sifting down\<close>

text \<open>When the node itself is picked, neither child outranks it.\<close>

lemma pick_largest_self:
  assumes "pick_largest h k = k" "i \<in> {1..<size_h h}" "parent i = k"
  shows "cmp h (data h ! i) (data h ! k) \<le> 0"
proof -
  from assms(2,3) have "i = left k \<or> i = right k" by (simp add: parent_eq_iff)
  moreover have "left k \<noteq> k" "right k \<noteq> k" "left k \<noteq> right k" by (simp_all add: left_def right_def)
  ultimately show ?thesis using assms(1,2)
    by (auto simp: pick_largest_def Let_def split: if_splits)
qed

text \<open>When a child is picked, it is outranked neither by its sibling nor by the node:
  after the swap it may stand above both.\<close>

lemma pick_largest_child:
  assumes v: "cmp_valid_on S (cmp h)" and S: "set (take (size_h h) (data h)) \<subseteq> S"
    and len: "size_h h \<le> length (data h)"
    and m: "pick_largest h k = m" "m \<noteq> k" and i: "i \<in> {1..<size_h h}" "parent i = k"
  shows "cmp h (if i = m then data h ! k else data h ! i) (data h ! m) \<le> 0"
proof -
  let ?d = "data h" and ?c = "cmp h" and ?n = "size_h h"
  from i have ik: "i = left k \<or> i = right k" by (simp add: parent_eq_iff)
  have ne: "left k \<noteq> k" "right k \<noteq> k" "left k \<noteq> right k" "k < left k" "k < right k"
    by (simp_all add: left_def right_def)
  from pick_largest_cases[of h k] m have mk: "(m = left k \<and> left k < ?n) \<or> (m = right k \<and> right k < ?n)"
    by auto
  then have kn: "k < ?n" using ne by auto
  have inS: "\<And>j. j < ?n \<Longrightarrow> ?d ! j \<in> S" using live_mem[OF _ len S] by blast
  have kS: "?d ! k \<in> S" using inS kn by blast
  show ?thesis
  proof (cases "left k < ?n \<and> 0 < ?c (?d ! left k) (?d ! k)")
    case True
    note L = this
    show ?thesis
    proof (cases "right k < ?n \<and> 0 < ?c (?d ! right k) (?d ! left k)")
      case True
      with L m have mr: "m = right k" by (auto simp: pick_largest_def Let_def)
      have "?c (?d ! left k) (?d ! right k) \<le> 0"
        using cmp_total[OF v _ _ conjunct2[OF True]] inS True L by blast
      moreover have "?c (?d ! k) (?d ! left k) \<le> 0"
        using cmp_total[OF v _ _ conjunct2[OF L]] inS L kS by blast
      moreover then have "?c (?d ! k) (?d ! right k) \<le> 0"
        using cmp_trans[OF v kS _ _ _ calculation(1)] inS L True by blast
      ultimately show ?thesis using ik mr ne by auto
    next
      case False
      with L m have ml: "m = left k" by (auto simp: pick_largest_def Let_def)
      have "?c (?d ! k) (?d ! left k) \<le> 0"
        using cmp_total[OF v _ _ conjunct2[OF L]] inS L kS by blast
      moreover have "i = right k \<Longrightarrow> ?c (?d ! right k) (?d ! left k) \<le> 0"
        using False i by auto
      ultimately show ?thesis using ik ml ne by auto
    qed
  next
    case False
    note NL = this
    with m mk have mr: "m = right k" and R: "right k < ?n" "0 < ?c (?d ! right k) (?d ! k)"
      by (auto simp: pick_largest_def Let_def split: if_splits)
    have kr: "?c (?d ! k) (?d ! right k) \<le> 0"
      using cmp_total[OF v _ _ R(2)] inS R kS by blast
    have "i = left k \<Longrightarrow> ?c (?d ! left k) (?d ! right k) \<le> 0"
    proof -
      assume il: "i = left k"
      with i have "left k < ?n" by simp
      with NL have "?c (?d ! left k) (?d ! k) \<le> 0" by auto
      then show ?thesis using cmp_trans[OF v _ kS _ _ kr] inS R \<open>left k < ?n\<close> by blast
    qed
    then show ?thesis using ik mr ne kr by auto
  qed
qed

lemma down_inv_done:
  assumes "down_inv c d n j k" "\<forall>i\<in>{1..<n}. parent i = k \<longrightarrow> c (d ! i) (d ! k) \<le> 0"
  shows "heap_from c d n j"
  using assms unfolding down_inv_def heap_from_def by blast

lemma down_inv_step:
  assumes v: "cmp_valid_on S (cmp h)" and S: "set (take (size_h h) (data h)) \<subseteq> S"
    and len: "size_h h \<le> length (data h)"
    and inv: "down_inv (cmp h) (data h) (size_h h) j k" and jk: "j \<le> k"
    and m: "pick_largest h k = m" "m \<noteq> k"
  shows "down_inv (cmp h) (swap (data h) k m) (size_h h) j m"
proof -
  let ?d = "data h" and ?c = "cmp h" and ?n = "size_h h"
  let ?d' = "swap ?d k m"
  from pick_largest_cases[of h k] m
  have mk: "m = left k \<or> m = right k" and mn: "m < ?n" by auto
  then have pm: "parent m = k" by auto
  from mk have km: "k < m" by (auto simp: left_def right_def)
  have kl: "k < length ?d" "m < length ?d" using km mn len by auto
  have nth': "\<And>i. ?d' ! i = (if i = m then ?d ! k else if i = k then ?d ! m else ?d ! i)"
    using nth_swap[OF kl] by simp
  have child: "\<And>i. i \<in> {1..<?n} \<Longrightarrow> parent i = k \<Longrightarrow>
      ?c (if i = m then ?d ! k else ?d ! i) (?d ! m) \<le> 0"
    using pick_largest_child[OF v S len m] by blast
  have part1: "?c (?d' ! i) (?d' ! parent i) \<le> 0"
    if i: "i \<in> {1..<?n}" and ji: "j \<le> parent i" and pim: "parent i \<noteq> m" for i
  proof (cases "parent i = k")
    case True
    then have "i \<noteq> k" using parent_less[of i] i by auto
    with True child[OF i True] show ?thesis by (auto simp: nth' split: if_splits)
  next
    case False
    note pk = this
    show ?thesis
    proof (cases "i = k")
      case True
      then have k0: "0 < k" using i by simp
      then have pkk: "parent k < k" by (rule parent_less)
      have "m \<in> {1..<?n}" using mn km by auto
      with inv k0 ji True pm have "?c (?d ! m) (?d ! parent k) \<le> 0"
        unfolding down_inv_def by blast
      moreover have "parent k \<noteq> m" "parent k \<noteq> k" using pkk km by auto
      ultimately show ?thesis using True km by (simp add: nth')
    next
      case False
      then have "i \<noteq> m" using pk pm by auto
      moreover from inv i ji pk have "?c (?d ! i) (?d ! parent i) \<le> 0"
        unfolding down_inv_def by blast
      ultimately show ?thesis using False pk pim by (simp add: nth')
    qed
  qed
  have part2: "?c (?d' ! i) (?d' ! parent m) \<le> 0"
    if i: "i \<in> {1..<?n}" and pim: "parent i = m" for i
  proof -
    have "m < i" using parent_less[of i] i pim by auto
    then have ne: "i \<noteq> m" "i \<noteq> k" using km by auto
    from inv i pim jk km have "?c (?d ! i) (?d ! m) \<le> 0"
      unfolding down_inv_def by auto
    then show ?thesis using ne pm km by (simp add: nth' pim)
  qed
  show ?thesis unfolding down_inv_def using part1 part2 by blast
qed

lemma set_take_swap:
  assumes "a < n" "b < n" "n \<le> length xs"
  shows "mset (take n (swap xs a b)) = mset (take n xs)"
  using assms by (simp add: take_swap mset_swap_slots)

lemma sift_down_heap_from:
  assumes "cmp_valid_on S (cmp h)" "set (take (size_h h) (data h)) \<subseteq> S"
    "size_h h \<le> length (data h)" "down_inv (cmp h) (data h) (size_h h) j k" "j \<le> k"
  shows "heap_from (cmp h) (data (sift_down h k)) (size_h h) j"
  using assms
proof (induction h k rule: sift_down.induct)
  case (1 h k)
  show ?case
  proof (cases "pick_largest h k = k")
    case True
    then have "sift_down h k = h" by (subst sift_down.simps) simp
    moreover have "\<forall>i\<in>{1..<size_h h}. parent i = k \<longrightarrow> cmp h (data h ! i) (data h ! k) \<le> 0"
      using pick_largest_self[OF True] by blast
    ultimately show ?thesis using down_inv_done[OF "1.prems"(4)] by simp
  next
    case False
    define m where "m = pick_largest h k"
    define h' where "h' = h\<lparr>data := swap (data h) k m\<rparr>"
    have m: "pick_largest h k = m" "m \<noteq> k" using False m_def by auto
    from pick_largest_cases[of h k] m have mn: "m < size_h h" and km: "k < m"
      by (auto simp: left_def right_def)
    have sd: "sift_down h k = sift_down h' m"
      by (subst sift_down.simps) (simp add: Let_def m h'_def)
    have f: "cmp h' = cmp h" "size_h h' = size_h h" "length (data h') = length (data h)"
      "data h' = swap (data h) k m" by (simp_all add: h'_def)
    have ms: "mset (take (size_h h) (data h')) = mset (take (size_h h) (data h))"
      unfolding f using set_take_swap[of k "size_h h" m "data h"] km mn "1.prems"(3) by simp
    then have "set (take (size_h h) (data h')) = set (take (size_h h) (data h))"
      by (rule mset_eq_setD)
    then have S': "set (take (size_h h') (data h')) \<subseteq> S" using "1.prems"(2) f by simp
    have inv': "down_inv (cmp h') (data h') (size_h h') j m"
      unfolding f using down_inv_step[OF "1.prems"(1,2,3,4,5) m] .
    have "heap_from (cmp h') (data (sift_down h' m)) (size_h h') j"
      using "1.IH"[OF m_def False[unfolded m_def[symmetric]], folded h'_def] "1.prems"(1,3,5) S' inv' km f
      by simp
    then show ?thesis using sd f by simp
  qed
qed

lemma sift_down_mset:
  assumes "size_h h \<le> length (data h)"
  shows "mset (take (size_h h) (data (sift_down h k))) = mset (take (size_h h) (data h))"
  using assms
proof (induction h k rule: sift_down.induct)
  case (1 h k)
  show ?case
  proof (cases "pick_largest h k = k")
    case True
    then have "sift_down h k = h" by (subst sift_down.simps) simp
    then show ?thesis by simp
  next
    case False
    define m where "m = pick_largest h k"
    define h' where "h' = h\<lparr>data := swap (data h) k m\<rparr>"
    have m: "pick_largest h k = m" "m \<noteq> k" using False m_def by auto
    from pick_largest_cases[of h k] m have mn: "m < size_h h" and km: "k < m"
      by (auto simp: left_def right_def)
    have sd: "sift_down h k = sift_down h' m"
      by (subst sift_down.simps) (simp add: Let_def m h'_def)
    have f: "size_h h' = size_h h" "length (data h') = length (data h)"
      "data h' = swap (data h) k m" by (simp_all add: h'_def)
    have ms: "mset (take (size_h h) (data h')) = mset (take (size_h h) (data h))"
      unfolding f using set_take_swap[of k "size_h h" m "data h"] km mn "1.prems" by simp
    have "mset (take (size_h h') (data (sift_down h' m))) = mset (take (size_h h') (data h'))"
      using "1.IH"[OF m_def False[unfolded m_def[symmetric]], folded h'_def] "1.prems" f by simp
    then show ?thesis using sd f ms by simp
  qed
qed

section \<open>Sifting up\<close>

lemma up_inv_done:
  assumes "up_inv c d n k" "k = 0 \<or> c (d ! k) (d ! parent k) \<le> 0"
  shows "heap_from c d n 0"
  using assms unfolding up_inv_def heap_from_def by (metis atLeastLessThan_iff less_one not_le)

lemma up_inv_step:
  assumes v: "cmp_valid_on S c" and S: "set (take n d) \<subseteq> S" and len: "n \<le> length d"
    and inv: "up_inv c d n k" and kn: "k < n" and k0: "0 < k"
    and gt: "0 < c (d ! k) (d ! parent k)"
  shows "up_inv c (swap d k (parent k)) n (parent k)"
proof -
  let ?p = "parent k"
  let ?d' = "swap d k ?p"
  have pk: "?p < k" using k0 by (rule parent_less)
  have kl: "k < length d" "?p < length d" using pk kn len by auto
  have nth': "\<And>i. ?d' ! i = (if i = ?p then d ! k else if i = k then d ! ?p else d ! i)"
    using nth_swap[OF kl] by simp
  have inS: "\<And>j. j < n \<Longrightarrow> d ! j \<in> S" using live_mem[OF _ len S] by blast
  have pS: "d ! ?p \<in> S" and kS: "d ! k \<in> S" using inS pk kn by auto
  have p_le_k: "c (d ! ?p) (d ! k) \<le> 0" using cmp_total[OF v kS pS gt] .
  have part1: "c (?d' ! i) (?d' ! parent i) \<le> 0" if i: "i \<in> {1..<n}" and ip: "i \<noteq> ?p" for i
  proof -
    have pi: "parent i < i" using i by (simp add: parent_less)
    consider (self) "i = k" | (child) "i \<noteq> k" "parent i = k" | (sib) "i \<noteq> k" "parent i = ?p"
      | (other) "i \<noteq> k" "parent i \<noteq> k" "parent i \<noteq> ?p" by blast
    then show ?thesis
    proof cases
      case self
      then show ?thesis using p_le_k pk by (simp add: nth')
    next
      case child
      with inv i k0 have "c (d ! i) (d ! ?p) \<le> 0" unfolding up_inv_def by blast
      then show ?thesis using child ip pk by (simp add: nth')
    next
      case sib
      with inv i have "c (d ! i) (d ! ?p) \<le> 0" unfolding up_inv_def by metis
      then have "c (d ! i) (d ! k) \<le> 0"
        using cmp_trans[OF v _ pS kS _ p_le_k] inS i by auto
      then show ?thesis using sib ip by (simp add: nth')
    next
      case other
      with inv i have "c (d ! i) (d ! parent i) \<le> 0" unfolding up_inv_def by blast
      then show ?thesis using other ip by (simp add: nth')
    qed
  qed
  have part2: "c (?d' ! i) (?d' ! parent ?p) \<le> 0"
    if i: "i \<in> {1..<n}" and pip: "parent i = ?p" and p0: "0 < ?p" for i
  proof -
    have ppp: "parent ?p < ?p" using p0 by (rule parent_less)
    then have pp_ne: "parent ?p \<noteq> ?p" "parent ?p \<noteq> k" using pk by auto
    have "?p \<in> {1..<n}" "?p \<noteq> k" using p0 pk kn by auto
    with inv have e: "c (d ! ?p) (d ! parent ?p) \<le> 0" unfolding up_inv_def by blast
    have ip: "i \<noteq> ?p" using pip parent_less[of i] i by auto
    show ?thesis
    proof (cases "i = k")
      case True
      then show ?thesis using e pp_ne pk by (simp add: nth')
    next
      case False
      with inv i have "c (d ! i) (d ! ?p) \<le> 0" unfolding up_inv_def using pip by metis
      moreover have "d ! parent ?p \<in> S" using inS ppp pk kn by auto
      ultimately have "c (d ! i) (d ! parent ?p) \<le> 0"
        using cmp_trans[OF v _ pS _ _ e] inS i by auto
      then show ?thesis using False ip pp_ne by (simp add: nth')
    qed
  qed
  show ?thesis unfolding up_inv_def using part1 part2 by blast
qed

lemma sift_up_heap_from:
  assumes "cmp_valid_on S (cmp h)" "set (take n (data h)) \<subseteq> S" "n \<le> length (data h)"
    "up_inv (cmp h) (data h) n k" "k < n"
  shows "heap_from (cmp h) (data (sift_up h k)) n 0"
  using assms
proof (induction h k rule: sift_up.induct)
  case (1 h k)
  show ?case
  proof (cases "k = 0 \<or> cmp h (data h ! k) (data h ! parent k) \<le> 0")
    case True
    then have "sift_up h k = h" by (subst sift_up.simps) (auto simp: Let_def)
    then show ?thesis using up_inv_done[OF "1.prems"(4) True] by simp
  next
    case False
    then have k0: "0 < k" and gt: "0 < cmp h (data h ! k) (data h ! parent k)" by auto
    define h' where "h' = h\<lparr>data := swap (data h) k (parent k)\<rparr>"
    have pk: "parent k < k" using k0 by (rule parent_less)
    have su: "sift_up h k = sift_up h' (parent k)"
      by (subst sift_up.simps) (use k0 gt in \<open>simp add: Let_def h'_def\<close>)
    have f: "cmp h' = cmp h" "length (data h') = length (data h)"
      "data h' = swap (data h) k (parent k)" by (simp_all add: h'_def)
    have ms: "mset (take n (data h')) = mset (take n (data h))"
      unfolding f using set_take_swap[of k n "parent k" "data h"] pk "1.prems"(3,5) by simp
    then have "set (take n (data h')) = set (take n (data h))" by (rule mset_eq_setD)
    then have S': "set (take n (data h')) \<subseteq> S" using "1.prems"(2) by simp
    have inv': "up_inv (cmp h') (data h') n (parent k)"
      unfolding f using up_inv_step[OF "1.prems"(1,2,3,4,5) k0 gt] .
    have "\<not> cmp h (data h ! k) (data h ! parent k) \<le> 0" using gt by simp
    from "1.IH"[OF k0 refl this, folded h'_def] "1.prems"(1,3,5) S' inv' pk f
    have "heap_from (cmp h') (data (sift_up h' (parent k))) n 0" by simp
    then show ?thesis using su f by simp
  qed
qed

lemma sift_up_mset:
  assumes "n \<le> length (data h)" "k < n"
  shows "mset (take n (data (sift_up h k))) = mset (take n (data h))"
  using assms
proof (induction h k rule: sift_up.induct)
  case (1 h k)
  show ?case
  proof (cases "k = 0 \<or> cmp h (data h ! k) (data h ! parent k) \<le> 0")
    case True
    then have "sift_up h k = h" by (subst sift_up.simps) (auto simp: Let_def)
    then show ?thesis by simp
  next
    case False
    then have k0: "0 < k" and gt: "\<not> cmp h (data h ! k) (data h ! parent k) \<le> 0" by auto
    define h' where "h' = h\<lparr>data := swap (data h) k (parent k)\<rparr>"
    have pk: "parent k < k" using k0 by (rule parent_less)
    have su: "sift_up h k = sift_up h' (parent k)"
      by (subst sift_up.simps) (use k0 gt in \<open>simp add: Let_def h'_def\<close>)
    have f: "length (data h') = length (data h)"
      "data h' = swap (data h) k (parent k)" by (simp_all add: h'_def)
    have ms: "mset (take n (data h')) = mset (take n (data h))"
      unfolding f using set_take_swap[of k n "parent k" "data h"] pk "1.prems" by simp
    from "1.IH"[OF k0 refl gt, folded h'_def] "1.prems" pk f
    have "mset (take n (data (sift_up h' (parent k)))) = mset (take n (data h'))" by simp
    then show ?thesis using su ms by simp
  qed
qed

section \<open>Validation, the root, and the bottom-up loop\<close>

lemma heap_property_from: "heap_property h \<longleftrightarrow> heap_from (cmp h) (data h) (size_h h) 0"
  by (simp add: heap_property_def heap_from_def)

lemma validate_loop_iff:
  "validate_loop h i \<longleftrightarrow> (\<forall>k\<in>{i..<size_h h}. cmp h (data h ! k) (data h ! parent k) \<le> 0)"
proof (induction h i rule: validate_loop.induct)
  case (1 h i)
  show ?case
  proof (cases "i < size_h h")
    case False
    then show ?thesis by (subst validate_loop.simps) simp
  next
    case True
    then have split: "{i..<size_h h} = insert i {i + 1..<size_h h}" by auto
    show ?thesis
    proof (cases "0 < cmp h (data h ! i) (data h ! parent i)")
      case gt: True
      then have "\<not> validate_loop h i" by (subst validate_loop.simps) (simp add: True Let_def)
      moreover have "\<not> cmp h (data h ! i) (data h ! parent i) \<le> 0" using gt by simp
      ultimately show ?thesis unfolding split by blast
    next
      case le: False
      then have "validate_loop h i = validate_loop h (i + 1)"
        by (subst validate_loop.simps) (simp add: True Let_def)
      also have "\<dots> \<longleftrightarrow> (\<forall>k\<in>{i + 1..<size_h h}. cmp h (data h ! k) (data h ! parent k) \<le> 0)"
        using "1.IH"[OF True refl] le by simp
      finally show ?thesis unfolding split using le by auto
    qed
  qed
qed

lemma heap_validate_iff: "heap_validate (Some h) \<longleftrightarrow> heap_property h"
  by (simp add: heap_validate_def validate_loop_iff heap_property_def)

lemma root_dominates:
  assumes v: "cmp_valid_on S c" and S: "set (take n d) \<subseteq> S" and len: "n \<le> length d"
    and hp: "heap_from c d n 0"
  shows "i < n \<Longrightarrow> c (d ! i) (d ! 0) \<le> 0"
proof (induction i rule: less_induct)
  case (less i)
  have inS: "\<And>j. j < n \<Longrightarrow> d ! j \<in> S" using live_mem[OF _ len S] by blast
  show ?case
  proof (cases "i = 0")
    case True
    then show ?thesis using cmp_refl[OF v] inS less.prems by simp
  next
    case False
    then have pi: "parent i < i" by (simp add: parent_less)
    have "c (d ! i) (d ! parent i) \<le> 0"
      using hp False less.prems unfolding heap_from_def by simp
    moreover have "c (d ! parent i) (d ! 0) \<le> 0" using less.IH[OF pi] pi less.prems by simp
    ultimately show ?thesis
      using cmp_trans[OF v, of "d ! i" "d ! parent i" "d ! 0"] inS pi less.prems by simp
  qed
qed

lemma heapify_loop_size [simp]: "size_h (heapify_loop h i) = size_h h"
  by (induction h i rule: heapify_loop.induct) (subst heapify_loop.simps, simp)

lemma heapify_loop_capacity [simp]: "capacity (heapify_loop h i) = capacity h"
  by (induction h i rule: heapify_loop.induct) (subst heapify_loop.simps, simp)

lemma heapify_loop_cmp [simp]: "cmp (heapify_loop h i) = cmp h"
  by (induction h i rule: heapify_loop.induct) (subst heapify_loop.simps, simp)

lemma heapify_loop_length [simp]: "length (data (heapify_loop h i)) = length (data h)"
  by (induction h i rule: heapify_loop.induct) (subst heapify_loop.simps, simp)

lemma heapify_loop_mset:
  "size_h h \<le> length (data h) \<Longrightarrow>
   mset (take (size_h h) (data (heapify_loop h i))) = mset (take (size_h h) (data h))"
proof (induction h i rule: heapify_loop.induct)
  case (1 h i)
  show ?case
  proof (cases "0 \<le> i")
    case False
    then show ?thesis by (subst heapify_loop.simps) simp
  next
    case True
    have "heapify_loop h i = heapify_loop (sift_down h (nat i)) (i - 1)"
      by (subst heapify_loop.simps) (simp add: True)
    then show ?thesis using "1.IH"[OF True] "1.prems" sift_down_mset[OF "1.prems"] by simp
  qed
qed

lemma heap_from_leaves: "n div 2 \<le> j \<Longrightarrow> heap_from c d n j"
  unfolding heap_from_def parent_def by auto

lemma heap_from_down_inv: "heap_from c d n (Suc k) \<Longrightarrow> down_inv c d n k k"
  unfolding heap_from_def down_inv_def
  by (metis Suc_leI le_neq_implies_less not_le parent_less)

lemma heapify_loop_heap_from:
  assumes "cmp_valid_on S (cmp h)" "set (take (size_h h) (data h)) \<subseteq> S"
    "size_h h \<le> length (data h)" "heap_from (cmp h) (data h) (size_h h) (nat (i + 1))"
  shows "heap_from (cmp h) (data (heapify_loop h i)) (size_h h) 0"
  using assms
proof (induction h i rule: heapify_loop.induct)
  case (1 h i)
  show ?case
  proof (cases "0 \<le> i")
    case False
    then have "heapify_loop h i = h" by (subst heapify_loop.simps) simp
    moreover have "nat (i + 1) = 0" using False by simp
    ultimately show ?thesis using "1.prems"(4) by simp
  next
    case True
    let ?h' = "sift_down h (nat i)"
    have eq: "heapify_loop h i = heapify_loop ?h' (i - 1)"
      by (subst heapify_loop.simps) (simp add: True)
    have "nat (i + 1) = Suc (nat i)" using True by simp
    then have "down_inv (cmp h) (data h) (size_h h) (nat i) (nat i)"
      using heap_from_down_inv "1.prems"(4) by metis
    then have hf: "heap_from (cmp h) (data ?h') (size_h h) (nat i)"
      using sift_down_heap_from[OF "1.prems"(1,2,3)] by simp
    have "set (take (size_h h) (data ?h')) = set (take (size_h h) (data h))"
      using sift_down_mset[OF "1.prems"(3)] by (rule mset_eq_setD)
    then have S': "set (take (size_h ?h') (data ?h')) \<subseteq> S" using "1.prems"(2) by simp
    have "nat (i - 1 + 1) = nat i" by simp
    then show ?thesis using "1.IH"[OF True] "1.prems"(1,3) S' hf eq by simp
  qed
qed

section \<open>The operations on their main paths\<close>

subsection \<open>\<^verbatim>\<open>heap_build\<close>\<close>

lemma heap_build_Block:
  "heap_build arr (Some c) True (Block junk) =
     Some (heapify_loop (build_start arr c) (int (length arr div 2) - 1))"
  by (simp add: heap_build_def build_start_def Let_def)

lemma heap_build_None_iff:
  "heap_build arr cmp0 ok a = None \<longleftrightarrow> cmp0 = None \<or> \<not> ok \<or> a = NoMemory"
  by (cases a; cases cmp0) (simp_all add: heap_build_def Let_def)

lemma heap_build_SomeD:
  assumes "heap_build arr cmp0 ok a = Some h"
  obtains c where "cmp0 = Some c"
    "h = heapify_loop (build_start arr c) (int (length arr div 2) - 1)"
proof -
  from assms have "heap_build arr cmp0 ok a \<noteq> None" by simp
  then have "cmp0 \<noteq> None" "ok" "a \<noteq> NoMemory" by (simp_all add: heap_build_None_iff)
  then obtain c junk where "cmp0 = Some c" "a = Block junk" by (cases a; cases cmp0) auto
  with assms \<open>ok\<close> that show thesis by (simp add: heap_build_Block)
qed

lemma heapify_build_start:
  defines "res arr c \<equiv> heapify_loop (build_start arr c) (int (length arr div 2) - 1)"
  shows "size_h (res arr c) = length arr" "capacity (res arr c) = length arr"
    "cmp (res arr c) = c" "length (data (res arr c)) = length arr"
    "mset (data (res arr c)) = mset arr"
    "cmp_valid_on S c \<Longrightarrow> set arr \<subseteq> S \<Longrightarrow> heap_property (res arr c)"
proof -
  let ?h0 = "build_start arr c"
  let ?n = "length arr"
  have f0: "size_h ?h0 = ?n" "capacity ?h0 = ?n" "cmp ?h0 = c" "data ?h0 = arr"
    by (simp_all add: build_start_def)
  show "size_h (res arr c) = ?n" "capacity (res arr c) = ?n" "cmp (res arr c) = c"
    and len: "length (data (res arr c)) = ?n"
    by (simp_all add: res_def f0)
  have "mset (take (size_h ?h0) (data (res arr c))) = mset (take (size_h ?h0) (data ?h0))"
    unfolding res_def by (rule heapify_loop_mset) (simp add: f0)
  then show "mset (data (res arr c)) = mset arr" using len by (simp add: f0)
  assume v: "cmp_valid_on S c" and S: "set arr \<subseteq> S"
  have "nat (int (?n div 2) - 1 + 1) = ?n div 2" by simp
  then have "heap_from (cmp ?h0) (data ?h0) (size_h ?h0) (nat (int (?n div 2) - 1 + 1))"
    using heap_from_leaves[of ?n "?n div 2"] by (simp add: f0)
  then have "heap_from (cmp ?h0) (data (res arr c)) (size_h ?h0) 0"
    unfolding res_def by (rule heapify_loop_heap_from[rotated 3]) (use v S in \<open>simp_all add: f0\<close>)
  then show "heap_property (res arr c)"
    by (simp add: heap_property_from f0 res_def)
qed

subsection \<open>\<^verbatim>\<open>heap_insert\<close>: store, sift up, count\<close>

lemma place_fields:
  "size_h (place h x) = size_h h + 1" "capacity (place h x) = capacity h"
  "cmp (place h x) = cmp h" "length (data (place h x)) = length (data h)"
  by (simp_all add: place_def)

lemma place_mset:
  assumes "size_h h < length (data h)"
  shows "mset (live (place h x)) = add_mset x (mset (live h))"
proof -
  let ?n = "size_h h"
  let ?h2 = "h\<lparr>data := (data h)[?n := x]\<rparr>"
  have "mset (take (Suc ?n) (data (sift_up ?h2 ?n))) = mset (take (Suc ?n) (data ?h2))"
    by (rule sift_up_mset) (use assms in simp_all)
  also have "take (Suc ?n) (data ?h2) = take ?n (data h) @ [x]"
    using assms by (simp add: take_Suc_conv_app_nth)
  finally show ?thesis by (simp add: live_def place_def)
qed

lemma place_heap_property:
  assumes v: "cmp_valid_on S (cmp h)" and S: "set (live h) \<subseteq> S" and x: "x \<in> S"
    and len: "size_h h < length (data h)" and hp: "heap_property h"
  shows "heap_property (place h x)"
proof -
  let ?n = "size_h h"
  let ?d2 = "(data h)[?n := x]"
  let ?h2 = "h\<lparr>data := ?d2\<rparr>"
  have t: "take (Suc ?n) ?d2 = take ?n (data h) @ [x]"
    using len by (simp add: take_Suc_conv_app_nth)
  have S2: "set (take (Suc ?n) (data ?h2)) \<subseteq> S" using S x by (simp add: t live_def)
  have "up_inv (cmp h) ?d2 (Suc ?n) ?n"
    unfolding up_inv_def
  proof (intro conjI ballI impI)
    fix i assume i: "i \<in> {1..<Suc ?n}" "i \<noteq> ?n"
    then have "i < ?n" "parent i < ?n" using parent_less[of i] by auto
    then show "cmp h (?d2 ! i) (?d2 ! parent i) \<le> 0"
      using hp i unfolding heap_property_def by simp
  next
    fix i assume "i \<in> {1..<Suc ?n}" "parent i = ?n"
    then have False using parent_less[of i] by auto
    then show "cmp h (?d2 ! i) (?d2 ! parent ?n) \<le> 0" ..
  qed
  then have "heap_from (cmp ?h2) (data (sift_up ?h2 ?n)) (Suc ?n) 0"
    by (intro sift_up_heap_from[where S = S]) (use v S2 len in simp_all)
  then show ?thesis by (simp add: heap_property_from place_def)
qed

lemma size_mul_small: "a * b < 2 ^ 64 \<Longrightarrow> size_mul a b = a * b"
  by (simp add: size_mul_def SIZE_MAX_def)

lemma slots_of_small: "n < 2 ^ 61 \<Longrightarrow> slots_of n = n"
  by (simp add: slots_of_def size_mul_def SIZE_MAX_def SIZEOF_PTR_def)

lemma slots_of_le: "slots_of n \<le> n"
proof -
  have "size_mul n SIZEOF_PTR \<le> n * SIZEOF_PTR" by (simp add: size_mul_def)
  then have "size_mul n SIZEOF_PTR div SIZEOF_PTR \<le> n * SIZEOF_PTR div SIZEOF_PTR"
    by (rule div_le_mono)
  then show ?thesis by (simp add: slots_of_def SIZEOF_PTR_def)
qed

lemma heap_reserve_cases:
  "heap_reserve h n a =
     (if n \<le> capacity h then (0, h)
      else case a of NoMemory \<Rightarrow> (- 1, h)
           | Block junk \<Rightarrow>
               (0, h\<lparr>data := take (slots_of n) (data h) @ map junk [length (data h)..<slots_of n],
                      capacity := n\<rparr>))"
  by (cases a) (simp_all add: heap_reserve_def)

lemma heap_insert_room:
  "size_h h \<noteq> capacity h \<Longrightarrow> size_h h < length (data h) \<Longrightarrow>
   heap_insert h x a = Inr (0, place h x)"
  by (simp add: heap_insert_def place_def Let_def)

lemma heap_insert_no_room:
  "size_h h \<noteq> capacity h \<Longrightarrow> length (data h) \<le> size_h h \<Longrightarrow>
   heap_insert h x a = Inl OutOfBounds"
  by (simp add: heap_insert_def)

text \<open>A full heap of at least one slot: growth that cannot allocate leaves the heap as it
  was, growth that can doubles the capacity before the element is placed.\<close>

lemma heap_insert_full_NoMemory:
  assumes "size_h h = capacity h" "0 < capacity h" "capacity h < 2 ^ 63"
  shows "heap_insert h x NoMemory = Inr (- 1, h)"
proof -
  have "size_mul (capacity h) 2 = capacity h * 2" using assms(3) by (simp add: size_mul_small)
  then show ?thesis using assms by (simp add: heap_insert_def heap_reserve_cases)
qed

lemma heap_insert_full_Block:
  assumes "size_h h = capacity h" "0 < capacity h" "capacity h = length (data h)"
    "capacity h < 2 ^ 60"
  shows "heap_insert h x (Block junk) = Inr (0, place (grown h junk) x)"
proof -
  have "size_mul (capacity h) 2 = capacity h * 2" using assms(4) by (simp add: size_mul_small)
  moreover have "slots_of (capacity h * 2) = capacity h * 2"
    using assms(4) by (simp add: slots_of_small)
  ultimately show ?thesis
    using assms(1-3) by (simp add: heap_insert_def heap_reserve_cases place_def Let_def grown_def)
qed

lemma heap_insert_full_zero:
  "size_h h = capacity h \<Longrightarrow> capacity h = 0 \<Longrightarrow> length (data h) = 0 \<Longrightarrow>
   heap_insert h x a = Inl OutOfBounds"
  by (simp add: heap_insert_def heap_reserve_cases size_mul_def)

lemma grown_fields:
  assumes "capacity h = length (data h)"
  shows "size_h (grown h junk) = size_h h" "capacity (grown h junk) = 2 * capacity h"
    "cmp (grown h junk) = cmp h" "length (data (grown h junk)) = 2 * capacity h"
    "size_h h \<le> capacity h \<Longrightarrow> live (grown h junk) = live h"
    "take (length (data h)) (data (grown h junk)) = data h"
  using assms by (simp_all add: grown_def live_def)

lemma heap_insert_full_grows:
  assumes "in_bounds h" "size_h h = capacity h" "0 < capacity h" "capacity h < 2 ^ 60"
  shows "\<exists>h'. heap_insert h x (Block junk) = Inr (0, h') \<and> capacity h' = 2 * capacity h \<and>
           size_h h' = size_h h + 1 \<and> mset (live h') = add_mset x (mset (live h))"
proof -
  have c: "capacity h = length (data h)" using assms(1,2) by (simp add: in_bounds_def)
  let ?g = "grown h junk"
  have room: "size_h ?g < length (data ?g)"
    using assms(2,3) by (simp add: grown_fields(1,4)[OF c])
  have "mset (live (place ?g x)) = add_mset x (mset (live h))"
    using place_mset[OF room, of x] grown_fields(5)[OF c, of junk] assms(2) by simp
  then show ?thesis
    using heap_insert_full_Block[OF assms(2,3) c assms(4), of x junk]
    by (simp add: place_fields grown_fields(1,2)[OF c])
qed

subsection \<open>\<^verbatim>\<open>heap_extract\<close>\<close>

lemma heap_extract_nonempty:
  "0 < size_h h \<Longrightarrow> heap_extract (Some h) = (data h ! 0, Some (popped h))"
  by (simp add: heap_extract_def popped_def Let_def)

lemma popped_fields:
  "size_h (popped h) = size_h h - 1" "capacity (popped h) = capacity h"
  "cmp (popped h) = cmp h" "length (data (popped h)) = length (data h)"
  by (simp_all add: popped_def Let_def)

lemma mset_take_move_last:
  assumes "Suc m \<le> length d"
  shows "add_mset (d ! 0) (mset (take m (d[0 := d ! m]))) = mset (take (Suc m) d)"
proof (cases m)
  case 0
  with assms show ?thesis by (cases d) simp_all
next
  case (Suc k)
  have t: "take m (d[0 := d ! m]) = (take m d)[0 := d ! m]" by (simp add: take_update_swap)
  have "0 < length (take m d)" using assms Suc by simp
  then have "mset ((take m d)[0 := d ! m]) = add_mset (d ! m) (mset (take m d) - {#take m d ! 0#})"
    by (rule mset_update)
  moreover have "take m d ! 0 = d ! 0" using Suc by simp
  moreover have "d ! 0 \<in># mset (take m d)"
    using assms Suc by (metis \<open>0 < length (take m d)\<close> calculation(2) nth_mem set_mset_mset)
  moreover have "mset (take (Suc m) d) = add_mset (d ! m) (mset (take m d))"
    using assms by (simp add: take_Suc_conv_app_nth)
  ultimately show ?thesis by (simp add: t)
qed

lemma popped_mset:
  assumes "0 < size_h h" "size_h h \<le> length (data h)"
  shows "add_mset (data h ! 0) (mset (live (popped h))) = mset (live h)"
proof -
  obtain m where m: "size_h h = Suc m" using assms(1) by (cases "size_h h") auto
  let ?h2 = "h\<lparr>data := (data h)[0 := data h ! m], size_h := m\<rparr>"
  have "mset (take (size_h ?h2) (data (sift_down ?h2 0))) = mset (take (size_h ?h2) (data ?h2))"
    by (rule sift_down_mset) (use assms m in simp)
  then have "mset (live (popped h)) = mset (take m ((data h)[0 := data h ! m]))"
    by (simp add: popped_def Let_def m live_def)
  then show ?thesis using mset_take_move_last[of m "data h"] assms m by (simp add: live_def)
qed

lemma root_replaced_down_inv:
  assumes "heap_property h" "n \<le> size_h h"
  shows "down_inv (cmp h) ((data h)[0 := y]) n 0 0"
  unfolding down_inv_def
proof (intro conjI ballI impI)
  fix i assume i: "i \<in> {1..<n}" "parent i \<noteq> 0"
  then have "cmp h (data h ! i) (data h ! parent i) \<le> 0"
    using assms unfolding heap_property_def by auto
  then show "cmp h ((data h)[0 := y] ! i) ((data h)[0 := y] ! parent i) \<le> 0"
    using i by simp
qed simp

lemma popped_heap_property:
  assumes v: "cmp_valid_on S (cmp h)" and S: "set (live h) \<subseteq> S"
    and n: "0 < size_h h" "size_h h \<le> length (data h)" and hp: "heap_property h"
  shows "heap_property (popped h)"
proof -
  obtain m where m: "size_h h = Suc m" using n(1) by (cases "size_h h") auto
  let ?d2 = "(data h)[0 := data h ! m]"
  let ?h2 = "h\<lparr>data := ?d2, size_h := m\<rparr>"
  have "set (take m ?d2) \<subseteq> set (take (Suc m) (data h))"
    using mset_take_move_last[of m "data h"] n m
    by (metis mset_eq_setD set_mset_add_mset_insert set_mset_mset subset_insertI)
  then have S2: "set (take (size_h ?h2) (data ?h2)) \<subseteq> S" using S m by (simp add: live_def)
  have "down_inv (cmp h) ?d2 m 0 0" by (rule root_replaced_down_inv[OF hp]) (simp add: m)
  then have "heap_from (cmp ?h2) (data (sift_down ?h2 0)) (size_h ?h2) 0"
    by (intro sift_down_heap_from[where S = S]) (use v S2 n m in simp_all)
  moreover have "heap_property ?h2" if "m = 0" using that by (simp add: heap_property_def)
  ultimately show ?thesis
    by (auto simp: popped_def Let_def m heap_property_from)
qed

subsection \<open>\<^verbatim>\<open>heap_replace\<close>\<close>

lemma heap_replace_nonempty:
  "0 < size_h h \<Longrightarrow> heap_replace (Some h) x = (data h ! 0, Some (replaced h x))"
  by (simp add: heap_replace_def replaced_def Let_def)

lemma replaced_fields:
  "size_h (replaced h x) = size_h h" "capacity (replaced h x) = capacity h"
  "cmp (replaced h x) = cmp h" "length (data (replaced h x)) = length (data h)"
  by (simp_all add: replaced_def)

lemma replaced_mset:
  assumes "0 < size_h h" "size_h h \<le> length (data h)"
  shows "mset (live (replaced h x)) = add_mset x (mset (live h) - {#data h ! 0#})"
proof -
  let ?h1 = "h\<lparr>data := (data h)[0 := x]\<rparr>"
  have "mset (take (size_h ?h1) (data (sift_down ?h1 0))) = mset (take (size_h ?h1) (data ?h1))"
    by (rule sift_down_mset) (use assms in simp)
  moreover have "take (size_h h) ((data h)[0 := x]) = (take (size_h h) (data h))[0 := x]"
    by (simp add: take_update_swap)
  moreover have "mset ((take (size_h h) (data h))[0 := x]) =
      add_mset x (mset (take (size_h h) (data h)) - {#take (size_h h) (data h) ! 0#})"
    by (rule mset_update) (use assms in simp)
  ultimately show ?thesis using assms by (simp add: live_def replaced_def)
qed

lemma replaced_heap_property:
  assumes v: "cmp_valid_on S (cmp h)" and S: "set (live h) \<subseteq> S" and x: "x \<in> S"
    and n: "0 < size_h h" "size_h h \<le> length (data h)" and hp: "heap_property h"
  shows "heap_property (replaced h x)"
proof -
  let ?d1 = "(data h)[0 := x]"
  let ?h1 = "h\<lparr>data := ?d1\<rparr>"
  have "set (take (size_h h) ?d1) \<subseteq> insert x (set (take (size_h h) (data h)))"
    by (simp add: take_update_swap set_update_subset_insert)
  then have S1: "set (take (size_h ?h1) (data ?h1)) \<subseteq> S" using S x by (auto simp: live_def)
  have "down_inv (cmp h) ?d1 (size_h h) 0 0" by (rule root_replaced_down_inv[OF hp]) simp
  then have "heap_from (cmp ?h1) (data (sift_down ?h1 0)) (size_h ?h1) 0"
    by (intro sift_down_heap_from[where S = S]) (use v S1 n in simp_all)
  then show ?thesis by (simp add: replaced_def heap_property_from)
qed

subsection \<open>Draining and sorting\<close>

termination pop_all
  by (relation "measure heap_size")
     (auto simp: heap_size_def heap_extract_def Let_def split: option.splits if_splits)

declare pop_all.simps [simp del]

lemma pop_all_empty: "size_h h = 0 \<Longrightarrow> pop_all (Some h) = []"
  by (subst pop_all.simps) (simp add: heap_size_def)

lemma pop_all_nonempty:
  "0 < size_h h \<Longrightarrow> pop_all (Some h) = data h ! 0 # pop_all (Some (popped h))"
  by (subst pop_all.simps) (simp add: heap_size_def heap_extract_nonempty)

lemma pop_all_mset:
  "size_h h = n \<Longrightarrow> size_h h \<le> length (data h) \<Longrightarrow> mset (pop_all (Some h)) = mset (live h)"
proof (induction n arbitrary: h)
  case 0
  then show ?case by (simp add: pop_all_empty live_def)
next
  case (Suc n)
  then have pos: "0 < size_h h" by simp
  have "mset (pop_all (Some (popped h))) = mset (live (popped h))"
    by (rule Suc.IH) (use Suc.prems in \<open>simp_all add: popped_fields\<close>)
  then show ?case using popped_mset[OF pos Suc.prems(2)] by (simp add: pop_all_nonempty[OF pos])
qed

lemma pop_all_sorted:
  assumes "cmp_valid_on S c"
  shows "size_h h = n \<Longrightarrow> cmp h = c \<Longrightarrow> size_h h \<le> length (data h) \<Longrightarrow> set (live h) \<subseteq> S \<Longrightarrow>
    heap_property h \<Longrightarrow> sorted_wrt (\<lambda>a b. c b a \<le> 0) (pop_all (Some h))"
proof (induction n arbitrary: h)
  case 0
  then show ?case by (simp add: pop_all_empty)
next
  case (Suc n)
  then have pos: "0 < size_h h" by simp
  note v = assms[folded Suc.prems(2)]
  have ms: "add_mset (data h ! 0) (mset (live (popped h))) = mset (live h)"
    using popped_mset[OF pos Suc.prems(3)] .
  then have sub: "set (live (popped h)) \<subseteq> set (live h)"
    by (metis mset_eq_setD set_mset_add_mset_insert set_mset_mset subset_insertI)
  have tail: "sorted_wrt (\<lambda>a b. c b a \<le> 0) (pop_all (Some (popped h)))"
    by (rule Suc.IH)
      (use Suc.prems sub popped_heap_property[OF v Suc.prems(4) pos Suc.prems(3,5)]
        in \<open>auto simp: popped_fields\<close>)
  have "c y (data h ! 0) \<le> 0" if "y \<in> set (pop_all (Some (popped h)))" for y
  proof -
    have "set (pop_all (Some (popped h))) = set (live (popped h))"
      using pop_all_mset[OF refl, of "popped h"] Suc.prems(3)
      by (metis mset_eq_setD popped_fields(1,4) diff_le_self le_trans)
    with that sub have "y \<in> set (take (size_h h) (data h))" by (auto simp: live_def)
    then obtain i where i: "i < size_h h" "y = data h ! i"
      using Suc.prems(3) by (auto simp: in_set_conv_nth)
    have "heap_from c (data h) (size_h h) 0"
      using Suc.prems(2,5) by (simp add: heap_property_from)
    from root_dominates[OF assms _ Suc.prems(3) this i(1)] Suc.prems(4) i(2)
    show ?thesis by (simp add: live_def)
  qed
  with tail show ?case by (simp add: pop_all_nonempty[OF pos])
qed

lemma sort_loop_pop_all:
  "size_h h = n \<Longrightarrow> size_h h \<le> length (data h) \<Longrightarrow> n \<le> length arr \<Longrightarrow>
   sort_loop arr (Some h) n = rev (pop_all (Some h)) @ drop n arr"
proof (induction n arbitrary: h arr)
  case 0
  then show ?case by (simp add: pop_all_empty)
next
  case (Suc n)
  then have pos: "0 < size_h h" by simp
  let ?x = "data h ! 0"
  have "sort_loop arr (Some h) (Suc n) = sort_loop (arr[n := ?x]) (Some (popped h)) n"
    by (simp add: heap_extract_nonempty[OF pos])
  also have "\<dots> = rev (pop_all (Some (popped h))) @ drop n (arr[n := ?x])"
    by (rule Suc.IH) (use Suc.prems in \<open>simp_all add: popped_fields\<close>)
  also have "drop n (arr[n := ?x]) = ?x # drop (Suc n) arr"
    using Suc.prems(3) by (metis Cons_nth_drop_Suc Suc_le_lessD drop_update_cancel length_list_update lessI nth_list_update_eq)
  finally show ?case by (simp add: pop_all_nonempty[OF pos])
qed

section \<open>Every reachable heap is in bounds and ordered\<close>

lemma heap_create_SomeD:
  assumes "heap_create cmp0 capacity0 ok a = Some h"
  shows "size_h h = 0 \<and> capacity h = (if capacity0 = 0 then HEAP_DEFAULT_CAP else capacity0) \<and>
         length (data h) = slots_of (capacity h) \<and> cmp0 = Some (cmp h)"
  using assms
  by (cases a; cases cmp0) (auto simp: heap_create_def Let_def split: if_splits)

text \<open>The heap property reads only the live slots.\<close>

lemma heap_property_live_cong:
  assumes "size_h h1 = size_h h" "cmp h1 = cmp h" "live h1 = live h"
    "size_h h \<le> length (data h)" "size_h h \<le> length (data h1)"
  shows "heap_property h1 = heap_property h"
proof -
  have "data h1 ! i = data h ! i" if "i < size_h h" for i
  proof -
    have "data h1 ! i = live h1 ! i" "data h ! i = live h ! i"
      using that assms(1) by (simp_all add: live_def)
    then show ?thesis using assms(3) by simp
  qed
  moreover have "parent i < size_h h" if "i \<in> {1..<size_h h}" for i
    using that parent_less[of i] by auto
  ultimately show ?thesis
    unfolding heap_property_def using assms(1,2) by simp
qed

lemma take_realloc:
  assumes "k \<le> length old" "k < length (take s old @ ys)" "length ys = s - length old"
  shows "take k (take s old @ ys) = take k old"
proof (cases "s \<le> length old")
  case True
  then have "length (take s old @ ys) = s" using assms(3) by simp
  then have "k < s" using assms(2) by simp
  then show ?thesis using True by (simp add: min_def)
next
  case False
  then show ?thesis using assms(1) by simp
qed

text \<open>What a returning \<^verbatim>\<open>heap_insert\<close> has done: nothing, with status \<open>- 1\<close>; or it has placed
  the element in a heap \<open>h1\<close> that differs from the old one at most in a regrown buffer
  and a new capacity, and had a free slot at index \<open>size\<close>.\<close>

lemma heap_insert_InrD:
  assumes len: "size_h h \<le> length (data h)" and ins: "heap_insert h x a = Inr (rc, h')"
  obtains (failed) "rc = - 1" "h' = h"
  | (stored) h1 where "rc = 0" "h' = place h1 x" "size_h h1 = size_h h"
      "size_h h1 < length (data h1)" "cmp h1 = cmp h" "live h1 = live h"
      "length (data h) \<le> capacity h \<Longrightarrow> length (data h1) \<le> capacity h1"
proof -
  define r where "r = (if size_h h = capacity h then heap_reserve h (size_mul (capacity h) 2) a
    else (0, h))"
  obtain rc1 h1 where r: "r = (rc1, h1)" by (cases r)
  have step: "heap_insert h x a =
      (if rc1 < 0 then Inr (- 1, h1)
       else if length (data h1) \<le> size_h h1 then Inl OutOfBounds
       else Inr (0, place h1 x))"
    using r unfolding r_def by (simp add: heap_insert_def place_def Let_def)
  have h1: "(rc1 = - 1 \<and> h1 = h) \<or>
      (rc1 = 0 \<and> size_h h1 = size_h h \<and> cmp h1 = cmp h \<and>
        (h1 = h \<or> (\<exists>s ys n. data h1 = take s (data h) @ ys \<and> length ys = s - length (data h) \<and>
            capacity h1 = n \<and> s \<le> n)))"
  proof (cases "size_h h = capacity h \<and> capacity h < size_mul (capacity h) 2")
    case False
    then have "r = (0, h)" by (auto simp: r_def heap_reserve_cases)
    with r show ?thesis by simp
  next
    case True
    then have rr: "r = heap_reserve h (size_mul (capacity h) 2) a" by (simp add: r_def)
    show ?thesis
    proof (cases a)
      case NoMemory
      with rr True r show ?thesis by (simp add: heap_reserve_cases)
    next
      case (Block junk)
      let ?n = "size_mul (capacity h) 2"
      let ?ys = "map junk [length (data h)..<slots_of ?n]"
      from rr True r Block
      have "rc1 = 0" "h1 = h\<lparr>data := take (slots_of ?n) (data h) @ ?ys, capacity := ?n\<rparr>"
        by (simp_all add: heap_reserve_cases)
      then have "rc1 = 0 \<and> size_h h1 = size_h h \<and> cmp h1 = cmp h \<and>
          data h1 = take (slots_of ?n) (data h) @ ?ys \<and>
          length ?ys = slots_of ?n - length (data h) \<and> capacity h1 = ?n \<and> slots_of ?n \<le> ?n"
        by (simp add: slots_of_le)
      then show ?thesis by blast
    qed
  qed
  show thesis
  proof (cases "rc1 < 0")
    case True
    with h1 have "rc1 = - 1" "h1 = h" by auto
    with step ins show thesis by (intro failed) simp_all
  next
    case False
    with h1 have sz: "size_h h1 = size_h h" and c: "cmp h1 = cmp h"
      and shape: "h1 = h \<or> (\<exists>s ys n. data h1 = take s (data h) @ ys \<and>
          length ys = s - length (data h) \<and> capacity h1 = n \<and> s \<le> n)"
      by auto
    from step ins False have room: "size_h h1 < length (data h1)" and res: "rc = 0" "h' = place h1 x"
      by (auto split: if_splits)
    have lv: "live h1 = live h"
    proof -
      from shape show ?thesis
      proof
        assume "h1 = h" then show ?thesis by simp
      next
        assume "\<exists>s ys n. data h1 = take s (data h) @ ys \<and> length ys = s - length (data h) \<and>
          capacity h1 = n \<and> s \<le> n"
        then obtain s ys where d: "data h1 = take s (data h) @ ys"
          "length ys = s - length (data h)" by blast
        have "take (size_h h) (take s (data h) @ ys) = take (size_h h) (data h)"
          by (rule take_realloc) (use len room sz d in simp_all)
        then show ?thesis by (simp add: live_def sz d)
      qed
    qed
    have cap: "length (data h1) \<le> capacity h1" if "length (data h) \<le> capacity h"
    proof -
      from shape show ?thesis
      proof
        assume "h1 = h" then show ?thesis using that by simp
      next
        assume "\<exists>s ys n. data h1 = take s (data h) @ ys \<and> length ys = s - length (data h) \<and>
          capacity h1 = n \<and> s \<le> n"
        then obtain s ys where d: "data h1 = take s (data h) @ ys"
          "length ys = s - length (data h)" "s \<le> capacity h1" by blast
        have "length (take s (data h) @ ys) = s" using d(2) by simp
        then show ?thesis using d by simp
      qed
    qed
    from res sz room c lv cap show thesis by (rule stored)
  qed
qed

lemma place_preserves:
  assumes v: "cmp_valid_on S (cmp h)" and len: "size_h h < length (data h)"
    and S: "set (live h) \<subseteq> S" and x: "x \<in> S" and hp: "heap_property h"
  shows "cmp (place h x) = cmp h \<and> size_h (place h x) \<le> length (data (place h x)) \<and>
         set (live (place h x)) \<subseteq> S \<and> heap_property (place h x)"
proof -
  have "set (live (place h x)) = insert x (set (live h))"
    using place_mset[OF len, of x] by (metis mset_eq_setD set_mset_add_mset_insert set_mset_mset)
  then show ?thesis
    using place_heap_property[OF v S x len hp] len S x
    by (simp add: place_fields)
qed

lemma popped_preserves:
  assumes v: "cmp_valid_on S (cmp h)" and len: "size_h h \<le> length (data h)"
    and pos: "0 < size_h h" and S: "set (live h) \<subseteq> S" and hp: "heap_property h"
  shows "cmp (popped h) = cmp h \<and> size_h (popped h) \<le> length (data (popped h)) \<and>
         set (live (popped h)) \<subseteq> S \<and> heap_property (popped h)"
proof -
  have "set (live (popped h)) \<subseteq> set (live h)"
    using popped_mset[OF pos len]
    by (metis mset_eq_setD set_mset_add_mset_insert set_mset_mset subset_insertI)
  then show ?thesis
    using popped_heap_property[OF v S pos len hp] S len
    by (auto simp: popped_fields)
qed

lemma replaced_preserves:
  assumes v: "cmp_valid_on S (cmp h)" and len: "size_h h \<le> length (data h)"
    and pos: "0 < size_h h" and S: "set (live h) \<subseteq> S" and x: "x \<in> S" and hp: "heap_property h"
  shows "cmp (replaced h x) = cmp h \<and> size_h (replaced h x) \<le> length (data (replaced h x)) \<and>
         set (live (replaced h x)) \<subseteq> S \<and> heap_property (replaced h x)"
proof -
  have "set (live (replaced h x)) \<subseteq> insert x (set (live h))"
    using replaced_mset[OF pos len, of x]
    by (metis in_diffD mset_eq_setD set_mset_add_mset_insert set_mset_mset insert_iff subsetI)
  then show ?thesis
    using replaced_heap_property[OF v S x pos len hp] S x len
    by (auto simp: replaced_fields)
qed

lemma reachable_invariant:
  assumes v: "cmp_valid_on S c"
  shows "reachable S c h \<Longrightarrow>
    cmp h = c \<and> size_h h \<le> length (data h) \<and> set (live h) \<subseteq> S \<and> heap_property h"
proof (induction rule: reachable.induct)
  case (created capacity0 calloc_ok a h)
  from heap_create_SomeD[OF this] show ?case
    by (simp add: live_def heap_property_def)
next
  case (built arr calloc_ok a h)
  from built(2) obtain c' where "Some c = Some c'"
    and h: "h = heapify_loop (build_start arr c') (int (length arr div 2) - 1)"
    by (rule heap_build_SomeD)
  then have h': "h = heapify_loop (build_start arr c) (int (length arr div 2) - 1)" by simp
  have "set (data h) = set arr" unfolding h' using heapify_build_start(5)[of arr c]
    by (rule mset_eq_setD)
  then show ?case
    using heapify_build_start(1-4)[of arr c] heapify_build_start(6)[OF v built(1)] built(1)
    unfolding h' by (simp add: live_def)
next
  case (inserted h x a rc h')
  then have IH: "cmp h = c" "size_h h \<le> length (data h)" "set (live h) \<subseteq> S" "heap_property h"
    by auto
  from IH(2) inserted(3) show ?case
  proof (cases rule: heap_insert_InrD)
    case failed
    then show ?thesis using IH by simp
  next
    case (stored h1)
    have "heap_property h1"
      using heap_property_live_cong[OF stored(3,5,6) IH(2)] stored(3,4) IH(4) by simp
    moreover have "cmp_valid_on S (cmp h1)" "set (live h1) \<subseteq> S"
      using v IH(1,3) stored(5,6) by simp_all
    ultimately show ?thesis
      using place_preserves[OF _ stored(4) _ inserted(2)] stored(2,5) IH(1) by simp
  qed
next
  case (extracted h r h')
  then have IH: "cmp h = c" "size_h h \<le> length (data h)" "set (live h) \<subseteq> S" "heap_property h"
    by auto
  note vh = v[folded IH(1)]
  show ?case
  proof (cases "size_h h = 0")
    case True
    with extracted(2) have "h' = h" by (simp add: heap_extract_def)
    then show ?thesis using IH by simp
  next
    case False
    then have pos: "0 < size_h h" by simp
    with extracted(2) have "h' = popped h" by (simp add: heap_extract_nonempty)
    then show ?thesis using popped_preserves[OF vh IH(2) pos IH(3,4)] IH(1) by simp
  qed
next
  case (replaced_root h x r h')
  then have IH: "cmp h = c" "size_h h \<le> length (data h)" "set (live h) \<subseteq> S" "heap_property h"
    by auto
  note vh = v[folded IH(1)]
  show ?case
  proof (cases "size_h h = 0")
    case True
    with replaced_root(3) have "h' = h" by (simp add: heap_replace_def)
    then show ?thesis using IH by simp
  next
    case False
    then have pos: "0 < size_h h" by simp
    with replaced_root(3) have "h' = replaced h x" by (simp add: heap_replace_nonempty)
    then show ?thesis
      using replaced_preserves[OF vh IH(2) pos IH(3) replaced_root(2) IH(4)] IH(1) by simp
  qed
qed

section \<open>The bottom-up loop as a fold\<close>

lemma heapify_loop_fold:
  "heapify_loop h (int k - 1) = fold (\<lambda>i h. sift_down h i) (rev [0..<k]) h"
proof (induction k arbitrary: h)
  case 0
  show ?case by (subst heapify_loop.simps) simp
next
  case (Suc k)
  have "heapify_loop h (int (Suc k) - 1) = heapify_loop (sift_down h k) (int k - 1)"
    by (subst heapify_loop.simps) simp
  then show ?case by (simp add: Suc.IH)
qed

lemma build_by_spec_eq:
  "build_by_spec arr c = heapify_loop (build_start arr c) (int (length arr div 2) - 1)"
  by (simp add: build_by_spec_def heapify_loop_fold build_start_def)

section \<open>Concrete runs\<close>

text \<open>The demo's comparator keeps its contract on non-null pointers.\<close>

lemma int_cmp_valid: "cmp_valid_on (range Some) int_cmp"
  unfolding cmp_valid_on_def by auto

lemmas eval_simps = heap_build_def heapify_loop.simps sift_down.simps sift_up.simps
  pick_largest_def left_def right_def parent_def swap_def Let_def heap_insert_def
  heap_reserve_def heap_extract_def heap_replace_def size_mul_def slots_of_def SIZE_MAX_def
  SIZEOF_PTR_def

lemma ex_build:
  "heap_build [Some 5, Some 2, Some 9] (Some int_cmp) True (Block (\<lambda>_. NULL)) =
     Some \<lparr>data = [Some 9, Some 2, Some 5], size_h = 3, capacity = 3, cmp = int_cmp\<rparr>"
  by (simp add: eval_simps)

lemma ex_insert:
  "heap_insert \<lparr>data = [Some 9, Some 2, Some 5], size_h = 3, capacity = 3, cmp = int_cmp\<rparr>
      (Some 7) (Block (\<lambda>_. NULL)) =
     Inr (0, \<lparr>data = [Some 9, Some 7, Some 5, Some 2, NULL, NULL], size_h = 4, capacity = 6,
               cmp = int_cmp\<rparr>)"
  by (simp add: eval_simps upt_conv_Cons)

lemma pop_all_example:
  "pop_all (heap_build [Some 5, Some 2, Some 9, Some 1, Some 6, Some 7, Some 3]
       (Some diff_cmp) True (Block junk)) =
     [Some 9, Some 7, Some 6, Some 5, Some 3, Some 2, Some 1]"
  by (simp add: eval_simps pop_all.simps heap_size_def)

lemma ex_heap_facts:
  defines "H \<equiv> \<lparr>data = [Some 9, Some 7, Some 5, Some 2, NULL, NULL], size_h = 4, capacity = 6,
       cmp = int_cmp\<rparr>"
  shows "in_bounds H" "0 < size_h H" "heap_property H" "set (live H) \<subseteq> range Some"
    "cmp H = int_cmp"
proof -
  show "in_bounds H" "0 < size_h H" "set (live H) \<subseteq> range Some" "cmp H = int_cmp"
    by (simp_all add: H_def in_bounds_def live_def)
  have "heap_validate (Some H)"
    by (simp add: H_def heap_validate_def validate_loop.simps parent_def)
  then show "heap_property H" by (simp add: heap_validate_iff)
qed

section \<open>Sorting through a transient heap\<close>

lemma heap_sort_built:
  assumes "heap_build arr cmp0 calloc_ok a = Some h"
  shows "heap_sort arr cmp0 calloc_ok a = rev (pop_all (Some h))"
    "size_h h = length arr" "length (data h) = length arr" "mset (live h) = mset arr"
proof -
  from assms obtain c where h: "h = heapify_loop (build_start arr c) (int (length arr div 2) - 1)"
    by (rule heap_build_SomeD)
  show sz: "size_h h = length arr" and len: "length (data h) = length arr"
    unfolding h by (rule heapify_build_start)+
  show "mset (live h) = mset arr"
    using heapify_build_start(5)[of arr c] sz len by (simp add: live_def h)
  have "sort_loop arr (Some h) (length arr) = rev (pop_all (Some h)) @ drop (length arr) arr"
    by (rule sort_loop_pop_all) (simp_all add: sz len)
  then show "heap_sort arr cmp0 calloc_ok a = rev (pop_all (Some h))"
    by (simp add: heap_sort_def assms)
qed

section \<open>Size, slots and capacity along a run\<close>

text \<open>In every reachable heap the live elements lie in the buffer, and the buffer has no
  more slots than the capacity field says.\<close>

lemma reachable_in_bounds: "reachable S c h \<Longrightarrow> in_bounds h"
  unfolding in_bounds_def
proof (induction rule: reachable.induct)
  case (created capacity0 calloc_ok a h)
  from heap_create_SomeD[OF this] show ?case by (simp add: slots_of_le)
next
  case (built arr calloc_ok a h)
  from built(2) obtain c' where
    h: "h = heapify_loop (build_start arr c') (int (length arr div 2) - 1)"
    by (rule heap_build_SomeD)
  show ?case
    unfolding h using heapify_build_start(1,2,4)[of arr c'] by simp
next
  case (inserted h x a rc h')
  then have IH: "size_h h \<le> length (data h)" "length (data h) \<le> capacity h" by auto
  from IH(1) inserted(3) show ?case
  proof (cases rule: heap_insert_InrD)
    case failed
    then show ?thesis using IH by simp
  next
    case (stored h1)
    then show ?thesis using IH(2) by (simp add: place_fields)
  qed
next
  case (extracted h r h')
  show ?case
  proof (cases "size_h h = 0")
    case True
    with extracted(2) have "h' = h" by (simp add: heap_extract_def)
    then show ?thesis using extracted(3) by simp
  next
    case False
    with extracted(2) have "h' = popped h" by (simp add: heap_extract_nonempty)
    then show ?thesis using extracted(3) by (auto simp: popped_fields)
  qed
next
  case (replaced_root h x r h')
  show ?case
  proof (cases "size_h h = 0")
    case True
    with replaced_root(3) have "h' = h" by (simp add: heap_replace_def)
    then show ?thesis using replaced_root(4) by simp
  next
    case False
    with replaced_root(3) have "h' = replaced h x" by (simp add: heap_replace_nonempty)
    then show ?thesis using replaced_root(4) by (simp add: replaced_fields)
  qed
qed

section \<open>The claims\<close>

text \<open>
  C1. Start from a heap made by \<^verbatim>\<open>heap_create\<close> or \<^verbatim>\<open>heap_build\<close> and apply \<^verbatim>\<open>heap_insert\<close>,
  \<^verbatim>\<open>heap_extract\<close> and \<^verbatim>\<open>heap_replace\<close> in any order, with elements from a set on which
  the comparator keeps its contract. Whenever an operation has returned, no child
  outranks its parent: for every index \<open>i\<close> with \<open>1 \<le> i < size\<close> the comparator applied to
  \<open>element[i]\<close> and \<open>element[parent i]\<close> is at most 0, and \<^verbatim>\<open>heap_validate\<close> returns true.
\<close>

theorem heap_property_invariant:
  assumes "reachable S c h" "cmp_valid_on S c"
  shows "(\<forall>i. 1 \<le> i \<and> i < size_h h \<longrightarrow> cmp h (data h ! i) (data h ! parent i) \<le> 0) \<and>
         heap_validate (Some h)"
proof -
  from reachable_invariant[OF assms(2,1)] have "heap_property h" by simp
  then show ?thesis by (simp add: heap_validate_iff) (simp add: heap_property_def)
qed

theorem heap_property_invariant_witness:
  "reachable (range Some) int_cmp
     \<lparr>data = [Some 9, Some 7, Some 5, Some 2, NULL, NULL], size_h = 4, capacity = 6,
       cmp = int_cmp\<rparr> \<and>
   cmp_valid_on (range Some) int_cmp \<and>
   heap_validate
     (Some \<lparr>data = [Some 9, Some 7, Some 5, Some 2, NULL, NULL], size_h = 4, capacity = 6,
             cmp = int_cmp\<rparr>)"
proof -
  have "reachable (range Some) int_cmp
      \<lparr>data = [Some 9, Some 2, Some 5], size_h = 3, capacity = 3, cmp = int_cmp\<rparr>"
    by (rule reachable.built[OF _ ex_build]) auto
  then have r: "reachable (range Some) int_cmp
      \<lparr>data = [Some 9, Some 7, Some 5, Some 2, NULL, NULL], size_h = 4, capacity = 6,
        cmp = int_cmp\<rparr>"
    by (rule reachable.inserted[OF _ _ ex_insert]) simp
  from heap_property_invariant[OF r int_cmp_valid] r int_cmp_valid show ?thesis by blast
qed

text \<open>
  C2. Take a heap that satisfies the heap property and is in bounds, as every reachable
  heap is. Popping until it is empty yields the live elements, each exactly once, in
  non-increasing priority order: no element popped later outranks one popped earlier.
  In particular, with the comparator returning \<open>a - b\<close> on integers, building from
  5, 2, 9, 1, 6, 7, 3 and popping until empty yields 9, 7, 6, 5, 3, 2, 1.
\<close>

theorem extract_order:
  "(in_bounds h \<and> heap_property h \<and> cmp_valid_on S (cmp h) \<and> set (live h) \<subseteq> S \<longrightarrow>
      sorted_wrt (\<lambda>earlier later. cmp h later earlier \<le> 0) (pop_all (Some h)) \<and>
      mset (pop_all (Some h)) = mset (live h)) \<and>
   pop_all (heap_build [Some 5, Some 2, Some 9, Some 1, Some 6, Some 7, Some 3]
       (Some diff_cmp) True (Block junk)) =
     [Some 9, Some 7, Some 6, Some 5, Some 3, Some 2, Some 1]"
proof (intro conjI impI)
  assume a: "in_bounds h \<and> heap_property h \<and> cmp_valid_on S (cmp h) \<and> set (live h) \<subseteq> S"
  then have len: "size_h h \<le> length (data h)" by (simp add: in_bounds_def)
  from a show "sorted_wrt (\<lambda>earlier later. cmp h later earlier \<le> 0) (pop_all (Some h))"
    using pop_all_sorted[of S "cmp h" h "size_h h"] len by simp
  show "mset (pop_all (Some h)) = mset (live h)" using pop_all_mset[OF refl len] .
qed (rule pop_all_example)

theorem extract_order_witness:
  "in_bounds \<lparr>data = [Some 9, Some 7, Some 5, Some 2, NULL, NULL], size_h = 4, capacity = 6,
       cmp = int_cmp\<rparr> \<and>
   heap_property \<lparr>data = [Some 9, Some 7, Some 5, Some 2, NULL, NULL], size_h = 4, capacity = 6,
       cmp = int_cmp\<rparr> \<and>
   cmp_valid_on (range Some) int_cmp \<and>
   pop_all (Some \<lparr>data = [Some 9, Some 7, Some 5, Some 2, NULL, NULL], size_h = 4, capacity = 6,
       cmp = int_cmp\<rparr>) = [Some 9, Some 7, Some 5, Some 2] \<and>
   sorted_wrt (\<lambda>earlier later. int_cmp later earlier \<le> 0)
     (pop_all (Some \<lparr>data = [Some 9, Some 7, Some 5, Some 2, NULL, NULL], size_h = 4,
        capacity = 6, cmp = int_cmp\<rparr>))"
proof -
  let ?H = "\<lparr>data = [Some 9, Some 7, Some 5, Some 2, NULL, NULL], size_h = 4, capacity = 6,
       cmp = int_cmp\<rparr>"
  have "sorted_wrt (\<lambda>earlier later. cmp ?H later earlier \<le> 0) (pop_all (Some ?H))"
    using extract_order[of ?H "range Some"] ex_heap_facts(1,3,4) int_cmp_valid by simp
  moreover have "pop_all (Some ?H) = [Some 9, Some 7, Some 5, Some 2]"
    by (simp add: eval_simps pop_all.simps heap_size_def)
  ultimately show ?thesis using ex_heap_facts(1,3) int_cmp_valid by simp
qed

text \<open>
  C3, as amended. For every input sequence and comparator, \<^verbatim>\<open>heap_sort\<close> leaves a
  permutation of the input in the array, whatever the allocator answers. When the
  transient heap is built and the comparator keeps its contract on the elements, the
  array read front to back is in ascending priority order: no element outranks a later
  one.
\<close>

theorem heap_sort_correct:
  "mset (heap_sort arr cmp0 calloc_ok a) = mset arr \<and>
   (cmp_valid_on S c \<and> set arr \<subseteq> S \<and> heap_build arr (Some c) calloc_ok a \<noteq> None \<longrightarrow>
      sorted_wrt (\<lambda>x y. c x y \<le> 0) (heap_sort arr (Some c) calloc_ok a))"
proof (intro conjI impI)
  show "mset (heap_sort arr cmp0 calloc_ok a) = mset arr"
  proof (cases "heap_build arr cmp0 calloc_ok a")
    case None
    then show ?thesis by (simp add: heap_sort_def)
  next
    case (Some h)
    from heap_sort_built[OF Some] pop_all_mset[OF refl, of h] show ?thesis by simp
  qed
next
  assume v: "cmp_valid_on S c \<and> set arr \<subseteq> S \<and> heap_build arr (Some c) calloc_ok a \<noteq> None"
  then obtain h where b: "heap_build arr (Some c) calloc_ok a = Some h" by blast
  then obtain c' where "Some c = Some c'"
    and "h = heapify_loop (build_start arr c') (int (length arr div 2) - 1)"
    by (rule heap_build_SomeD)
  then have h: "h = heapify_loop (build_start arr c) (int (length arr div 2) - 1)" by simp
  have f: "cmp h = c" "heap_property h"
    unfolding h using heapify_build_start(3)[of arr c] heapify_build_start(6)[of S c arr] v
    by simp_all
  have "set (live h) = set arr" using heap_sort_built(4)[OF b] by (rule mset_eq_setD)
  then have "sorted_wrt (\<lambda>x y. c y x \<le> 0) (pop_all (Some h))"
    using pop_all_sorted[of S c h "size_h h"] v f heap_sort_built(2,3)[OF b] by simp
  then show "sorted_wrt (\<lambda>x y. c x y \<le> 0) (heap_sort arr (Some c) calloc_ok a)"
    by (simp add: heap_sort_built(1)[OF b] sorted_wrt_rev)
qed

theorem heap_sort_correct_witness:
  "cmp_valid_on (range Some) int_cmp \<and>
   set [Some 5, Some 2, Some 9, Some 1, Some 6, Some 7, Some 3] \<subseteq> range Some \<and>
   heap_build [Some 5, Some 2, Some 9, Some 1, Some 6, Some 7, Some 3] (Some int_cmp) True
       (Block (\<lambda>_. NULL)) \<noteq> None \<and>
   heap_sort [Some 5, Some 2, Some 9, Some 1, Some 6, Some 7, Some 3] (Some int_cmp) True
       (Block (\<lambda>_. NULL)) =
     [Some 1, Some 2, Some 3, Some 5, Some 6, Some 7, Some 9] \<and>
   sorted_wrt (\<lambda>x y. int_cmp x y \<le> 0)
     (heap_sort [Some 5, Some 2, Some 9, Some 1, Some 6, Some 7, Some 3] (Some int_cmp) True
        (Block (\<lambda>_. NULL)))"
proof -
  let ?arr = "[Some 5, Some 2, Some 9, Some 1, Some 6, Some 7, Some (3::int)]"
  have s: "set ?arr \<subseteq> range Some" by auto
  have b: "heap_build ?arr (Some int_cmp) True (Block (\<lambda>_. NULL)) \<noteq> None"
    by (simp add: heap_build_None_iff)
  have "sorted_wrt (\<lambda>x y. int_cmp x y \<le> 0)
     (heap_sort ?arr (Some int_cmp) True (Block (\<lambda>_. NULL)))"
    using heap_sort_correct[of ?arr "Some int_cmp" True "Block (\<lambda>_. NULL)" "range Some" int_cmp]
      int_cmp_valid s b by blast
  moreover have "heap_sort ?arr (Some int_cmp) True (Block (\<lambda>_. NULL)) =
     [Some 1, Some 2, Some 3, Some 5, Some 6, Some 7, Some 9]"
    by (simp add: heap_sort_def eval_simps)
  ultimately show ?thesis using int_cmp_valid s b by simp
qed

text \<open>
  C3 as stated fails: when the buffer of the transient heap cannot be allocated, the
  array 2, 1 comes back as 2, 1, and 2 outranks 1 under the demo's comparator, so the
  array is not in ascending order.
\<close>

theorem heap_sort_unsorted_on_failure:
  "heap_sort [Some 2, Some 1] (Some int_cmp) True NoMemory = [Some 2, Some 1] \<and>
   \<not> int_cmp (Some 2) (Some 1) \<le> 0 \<and>
   \<not> sorted_wrt (\<lambda>x y. int_cmp x y \<le> 0)
       (heap_sort [Some 2, Some 1] (Some int_cmp) True NoMemory)"
  by (simp add: heap_sort_def heap_build_def)

text \<open>
  C4, at its failing input. \<^verbatim>\<open>heap_build\<close> on an empty array (with \<^verbatim>\<open>malloc(0)\<close> answering a
  non-null block) gives a heap of size 0 and capacity 0 over a buffer of no slots.
  \<^verbatim>\<open>heap_insert\<close> then asks \<^verbatim>\<open>heap_reserve\<close> for \<open>0 * 2 = 0\<close> slots, which is granted without
  allocating, and stores the item at index 0, outside the buffer.
\<close>

theorem insert_after_empty_build_overflows:
  "\<exists>h. heap_build [] (Some c) True (Block junk) = Some h \<and>
        size_h h = 0 \<and> capacity h = 0 \<and> data h = [] \<and>
        heap_insert h x a = Inl OutOfBounds"
  by (simp add: heap_build_def heapify_loop.simps heap_insert_def heap_reserve_def size_mul_def)

text \<open>
  C5. On a non-empty heap that is in bounds, \<^verbatim>\<open>heap_replace\<close> with \<open>x\<close> and \<^verbatim>\<open>heap_extract\<close>
  followed by \<^verbatim>\<open>heap_insert\<close> of \<open>x\<close> return the same value, the old root; the insert of the
  two-step version succeeds whatever the allocator would answer; both leave a heap of
  the original size and capacity, holding the same multiset of elements; and both
  leave the heap property in place when it held before and the comparator keeps its
  contract. (The two buffers may differ in layout.)
\<close>

theorem replace_equals_extract_insert:
  assumes "in_bounds h" "0 < size_h h"
  shows "\<exists>r h1 h2 h3.
     heap_replace (Some h) x = (r, Some h1) \<and>
     heap_extract (Some h) = (r, Some h2) \<and> heap_insert h2 x a = Inr (0, h3) \<and>
     r = data h ! 0 \<and>
     size_h h1 = size_h h \<and> size_h h3 = size_h h \<and>
     capacity h1 = capacity h \<and> capacity h3 = capacity h \<and>
     mset (live h1) = mset (live h3) \<and>
     (heap_property h \<and> cmp_valid_on S (cmp h) \<and> set (live h) \<subseteq> S \<and> x \<in> S \<longrightarrow>
        heap_property h1 \<and> heap_property h3)"
proof -
  let ?h1 = "replaced h x" and ?h2 = "popped h"
  let ?h3 = "place ?h2 x"
  have len: "size_h h \<le> length (data h)" and cap: "size_h h \<le> capacity h"
    using assms(1) by (simp_all add: in_bounds_def)
  have room: "size_h ?h2 \<noteq> capacity ?h2" "size_h ?h2 < length (data ?h2)"
    "size_h ?h2 < capacity ?h2"
    using assms(2) len cap by (simp_all add: popped_fields)
  have ins: "heap_insert ?h2 x a = Inr (0, ?h3)" by (rule heap_insert_room[OF room(1,2)])
  have "add_mset (data h ! 0) (mset (live ?h2)) = mset (live h)"
    using popped_mset[OF assms(2) len] .
  then have "mset (live ?h2) = mset (live h) - {#data h ! 0#}"
    by (metis add_mset_remove_trivial)
  then have ms: "mset (live ?h1) = mset (live ?h3)"
    using replaced_mset[OF assms(2) len, of x] place_mset[OF room(2), of x] by simp
  have hp: "heap_property ?h1 \<and> heap_property ?h3"
    if "heap_property h" "cmp_valid_on S (cmp h)" "set (live h) \<subseteq> S" "x \<in> S"
  proof -
    from popped_preserves[OF that(2) len assms(2) that(3,1)]
    have p: "cmp ?h2 = cmp h" "set (live ?h2) \<subseteq> S" "heap_property ?h2" by simp_all
    have "cmp_valid_on S (cmp ?h2)" using that(2) p(1) by simp
    from place_preserves[OF this room(2) p(2) that(4) p(3)]
      replaced_preserves[OF that(2) len assms(2) that(3,4,1)]
    show ?thesis by simp
  qed
  have "heap_replace (Some h) x = (data h ! 0, Some ?h1)"
    "heap_extract (Some h) = (data h ! 0, Some ?h2)"
    using assms(2) by (simp_all add: heap_replace_nonempty heap_extract_nonempty)
  with ins ms hp assms(2) show ?thesis
    by (intro exI[of _ "data h ! 0"] exI[of _ ?h1] exI[of _ ?h2] exI[of _ ?h3])
       (simp add: replaced_fields place_fields popped_fields)
qed

theorem replace_equals_extract_insert_witness:
  "in_bounds \<lparr>data = [Some 9, Some 7, Some 5, Some 2, NULL, NULL], size_h = 4, capacity = 6,
       cmp = int_cmp\<rparr> \<and>
   0 < size_h \<lparr>data = [Some 9, Some 7, Some 5, Some 2, NULL, NULL], size_h = 4, capacity = 6,
       cmp = int_cmp\<rparr> \<and>
   cmp_valid_on (range Some) int_cmp \<and>
   (\<exists>h1 h2 h3.
      heap_replace (Some \<lparr>data = [Some 9, Some 7, Some 5, Some 2, NULL, NULL], size_h = 4,
          capacity = 6, cmp = int_cmp\<rparr>) (Some 6) = (Some 9, Some h1) \<and>
      heap_extract (Some \<lparr>data = [Some 9, Some 7, Some 5, Some 2, NULL, NULL], size_h = 4,
          capacity = 6, cmp = int_cmp\<rparr>) = (Some 9, Some h2) \<and>
      heap_insert h2 (Some 6) NoMemory = Inr (0, h3) \<and>
      size_h h1 = 4 \<and> size_h h3 = 4 \<and> mset (live h1) = mset (live h3) \<and>
      heap_property h1 \<and> heap_property h3)"
proof -
  let ?H = "\<lparr>data = [Some 9, Some 7, Some 5, Some 2, NULL, NULL], size_h = 4, capacity = 6,
       cmp = int_cmp\<rparr>"
  from replace_equals_extract_insert[OF ex_heap_facts(1,2), of "Some 6" NoMemory "range Some"]
  obtain r h1 h2 h3 where *:
    "heap_replace (Some ?H) (Some 6) = (r, Some h1)"
    "heap_extract (Some ?H) = (r, Some h2)" "heap_insert h2 (Some 6) NoMemory = Inr (0, h3)"
    "r = data ?H ! 0" "size_h h1 = size_h ?H" "size_h h3 = size_h ?H"
    "mset (live h1) = mset (live h3)"
    "heap_property ?H \<and> cmp_valid_on (range Some) (cmp ?H) \<and> set (live ?H) \<subseteq> range Some \<and>
       Some 6 \<in> range Some \<longrightarrow> heap_property h1 \<and> heap_property h3"
    by blast
  have "heap_property h1 \<and> heap_property h3"
    using *(8) ex_heap_facts(3,4) int_cmp_valid by simp
  with * ex_heap_facts(1,2) int_cmp_valid show ?thesis by auto
qed

text \<open>
  C6. On a heap of size zero, \<^verbatim>\<open>heap_extract\<close>, \<^verbatim>\<open>heap_replace\<close> and \<^verbatim>\<open>heap_peek\<close> answer
  with the null pointer, the "nothing there" signal, and leave the heap exactly as it
  was: same size, same contents.
\<close>

theorem empty_heap_reports_absence:
  "size_h h = 0 \<Longrightarrow>
     heap_extract (Some h) = (NULL, Some h) \<and>
     heap_replace (Some h) x = (NULL, Some h) \<and>
     heap_peek (Some h) = NULL"
  by (simp add: heap_extract_def heap_replace_def heap_peek_def)

theorem empty_heap_reports_absence_witness:
  "size_h \<lparr>data = [Some 4, NULL], size_h = 0, capacity = 2, cmp = int_cmp\<rparr> = 0 \<and>
   heap_extract (Some \<lparr>data = [Some 4, NULL], size_h = 0, capacity = 2, cmp = int_cmp\<rparr>) =
     (NULL, Some \<lparr>data = [Some 4, NULL], size_h = 0, capacity = 2, cmp = int_cmp\<rparr>) \<and>
   heap_replace (Some \<lparr>data = [Some 4, NULL], size_h = 0, capacity = 2, cmp = int_cmp\<rparr>) (Some 7) =
     (NULL, Some \<lparr>data = [Some 4, NULL], size_h = 0, capacity = 2, cmp = int_cmp\<rparr>) \<and>
   heap_peek (Some \<lparr>data = [Some 4, NULL], size_h = 0, capacity = 2, cmp = int_cmp\<rparr>) = NULL"
  using empty_heap_reports_absence
    [of "\<lparr>data = [Some 4, NULL], size_h = 0, capacity = 2, cmp = int_cmp\<rparr>" "Some 7"]
  by simp

text \<open>
  C7, at its failing input. On a heap with size and capacity both 0, \<^verbatim>\<open>heap_insert\<close> calls
  \<^verbatim>\<open>heap_reserve\<close> with \<open>0 * 2\<close>, which returns success and leaves the capacity at 0: nothing
  is grown, whatever the allocator would have answered, and the item is stored outside
  the buffer.
\<close>

theorem insert_at_capacity_zero_does_not_grow:
  "heap_reserve \<lparr>data = [], size_h = 0, capacity = 0, cmp = c\<rparr> (size_mul 0 2) a =
     (0, \<lparr>data = [], size_h = 0, capacity = 0, cmp = c\<rparr>) \<and>
   heap_insert \<lparr>data = [], size_h = 0, capacity = 0, cmp = c\<rparr> x a = Inl OutOfBounds"
  by (simp add: heap_insert_def heap_reserve_def size_mul_def)

text \<open>
  C8. Every heap that \<^verbatim>\<open>heap_build\<close> returns for an array of \<open>n\<close> elements is the one the
  specification describes: the \<open>n\<close> references copied into a buffer of exactly \<open>n\<close> slots,
  logical size and capacity \<open>n\<close>, then sifted down at each index from \<open>n div 2 - 1\<close> down
  to \<open>0\<close>. It holds the same elements as the input, and with a comparator that keeps its
  contract on them \<^verbatim>\<open>heap_validate\<close> returns true on it. When both allocations succeed,
  \<^verbatim>\<open>heap_build\<close> does return that heap.
\<close>

theorem build_correct:
  "(heap_build arr (Some c) calloc_ok a = Some h \<longrightarrow>
      h = build_by_spec arr c \<and>
      length (data h) = length arr \<and> capacity h = length arr \<and> size_h h = length arr \<and>
      mset (data h) = mset arr \<and>
      (cmp_valid_on S c \<and> set arr \<subseteq> S \<longrightarrow> heap_validate (Some h))) \<and>
   heap_build arr (Some c) True (Block junk) = Some (build_by_spec arr c)"
proof (intro conjI impI)
  show "heap_build arr (Some c) True (Block junk) = Some (build_by_spec arr c)"
    by (simp add: heap_build_Block build_by_spec_eq)
next
  assume b: "heap_build arr (Some c) calloc_ok a = Some h"
  then obtain c' where "Some c = Some c'"
    and "h = heapify_loop (build_start arr c') (int (length arr div 2) - 1)"
    by (rule heap_build_SomeD)
  then show h: "h = build_by_spec arr c" by (simp add: build_by_spec_eq)
  show "length (data h) = length arr" "capacity h = length arr" "size_h h = length arr"
    "mset (data h) = mset arr"
    unfolding h build_by_spec_eq by (rule heapify_build_start)+
  assume "cmp_valid_on S c \<and> set arr \<subseteq> S"
  then show "heap_validate (Some h)"
    unfolding h build_by_spec_eq heap_validate_iff using heapify_build_start(6) by blast
qed

theorem build_correct_witness:
  "heap_build [Some 5, Some 2, Some 9, Some 1, Some 6, Some 7, Some 3] (Some int_cmp) True
       (Block (\<lambda>_. NULL)) =
     Some \<lparr>data = [Some 9, Some 6, Some 7, Some 1, Some 2, Some 5, Some 3],
           size_h = 7, capacity = 7, cmp = int_cmp\<rparr> \<and>
   cmp_valid_on (range Some) int_cmp \<and>
   set [Some 5, Some 2, Some 9, Some 1, Some 6, Some 7, Some 3] \<subseteq> range Some \<and>
   build_by_spec [Some 5, Some 2, Some 9, Some 1, Some 6, Some 7, Some 3] int_cmp =
     \<lparr>data = [Some 9, Some 6, Some 7, Some 1, Some 2, Some 5, Some 3],
      size_h = 7, capacity = 7, cmp = int_cmp\<rparr> \<and>
   heap_validate
     (Some \<lparr>data = [Some 9, Some 6, Some 7, Some 1, Some 2, Some 5, Some 3],
            size_h = 7, capacity = 7, cmp = int_cmp\<rparr>)"
proof -
  let ?arr = "[Some 5, Some 2, Some 9, Some 1, Some 6, Some 7, Some (3::int)]"
  let ?h = "\<lparr>data = [Some 9, Some 6, Some 7, Some 1, Some 2, Some 5, Some 3],
           size_h = 7, capacity = 7, cmp = int_cmp\<rparr>"
  have b: "heap_build ?arr (Some int_cmp) True (Block (\<lambda>_. NULL)) = Some ?h"
    by (simp add: eval_simps)
  have s: "set ?arr \<subseteq> range Some" by auto
  from build_correct[of ?arr int_cmp True "Block (\<lambda>_. NULL)" ?h "range Some"] b
  have "?h = build_by_spec ?arr int_cmp"
    and "cmp_valid_on (range Some) int_cmp \<and> set ?arr \<subseteq> range Some \<longrightarrow> heap_validate (Some ?h)"
    by blast+
  then show ?thesis using b s int_cmp_valid by simp
qed

text \<open>
  C9. On a null heap handle, \<^verbatim>\<open>heap_peek\<close>, \<^verbatim>\<open>heap_extract\<close> and \<^verbatim>\<open>heap_replace\<close> return the
  null pointer, \<^verbatim>\<open>heap_size\<close> returns 0, \<^verbatim>\<open>heap_validate\<close> returns false, and
  \<^verbatim>\<open>heap_clear\<close> and \<^verbatim>\<open>heap_destroy\<close> do nothing: the handle stays null and no block is
  freed. No field of a heap is read on the way.
\<close>

theorem null_handle_is_safe:
  "heap_peek (None :: 'a Heap option) = NULL \<and>
   heap_extract (None :: 'a Heap option) = (NULL, None) \<and>
   heap_replace (None :: 'a Heap option) x = (NULL, None) \<and>
   heap_size (None :: 'a Heap option) = 0 \<and>
   \<not> heap_validate (None :: 'a Heap option) \<and>
   heap_clear (None :: 'a Heap option) = None \<and>
   heap_destroy (None :: 'a Heap option) = []"
  by (simp add: heap_peek_def heap_extract_def heap_replace_def heap_size_def
      heap_validate_def heap_clear_def heap_destroy_def)

text \<open>
  C10. When \<^verbatim>\<open>heap_build\<close> fails inside \<^verbatim>\<open>heap_sort\<close>, the array is left exactly as it was.
  \<^verbatim>\<open>heap_sort\<close> returns nothing, so all the caller has is the array: on the input
  1, 2, 3 a sort whose allocation failed and a sort that succeeded leave the same array.
\<close>

theorem sort_failure_is_silent:
  "(heap_build arr cmp0 calloc_ok a = None \<longrightarrow> heap_sort arr cmp0 calloc_ok a = arr) \<and>
   heap_sort [Some 1, Some 2, Some 3] (Some int_cmp) True NoMemory =
     heap_sort [Some 1, Some 2, Some 3] (Some int_cmp) True (Block junk)"
  by (simp add: heap_sort_def eval_simps)

theorem sort_failure_is_silent_witness:
  "heap_build [Some 2, Some 1] (Some int_cmp) False (Block (\<lambda>_. NULL)) = None \<and>
   heap_sort [Some 2, Some 1] (Some int_cmp) False (Block (\<lambda>_. NULL)) = [Some 2, Some 1]"
proof -
  have n: "heap_build [Some 2, Some 1] (Some int_cmp) False (Block (\<lambda>_. NULL)) = None"
    by (simp add: heap_build_def)
  with sort_failure_is_silent[of "[Some 2, Some 1]" "Some int_cmp" False "Block (\<lambda>_. NULL)"]
  show ?thesis by blast
qed

end
